theory Spec2Isabelle
  imports Main "HOL-Library.Word" "HOL-Library.Monad_Syntax"
begin

unbundle bit_operations_syntax

section \<open>The greeter library of LightDM (liblightdm-gobject/greeter.c)\<close>

text \<open>
  A shallow embedding of the wire codec, the authentication session, the hint table and
  the user list of \<^verbatim>\<open>greeter.c\<close>. Every function of the source that is modelled keeps its
  name. Functions that touch memory return an \<open>option\<close>: \<open>None\<close> stands for a memory access
  that C leaves undefined (a read of a byte that was not received, a store outside an
  array, a read of freed memory) and, for the one loop that need not end, for not returning; every other outcome
  of the source is a \<open>Some\<close>.
\<close>

subsection \<open>Machine types\<close>

type_synonym guint8 = "8 word"
type_synonym guint32 = "32 word"
type_synonym gsize = "64 word"

text \<open>\<open>gint\<close> is a signed 32-bit integer: conversions to wider types use \<open>scast\<close>.\<close>
type_synonym gint = "32 word"

text \<open>
  A C string is modelled by its bytes up to, and without, the terminating NUL, so that
  \<^verbatim>\<open>strlen\<close> is \<open>length\<close>.
\<close>
type_synonym gchar = "8 word"
type_synonym cstring = "gchar list"

definition c_str :: "gchar list \<Rightarrow> cstring" where
  \<comment> \<open>the string a \<^verbatim>\<open>gchar *\<close> denotes when it points at these bytes followed by a NUL\<close>
  "c_str bytes = takeWhile (\<lambda>b. b \<noteq> 0) bytes"

text \<open>
  \<^verbatim>\<open>strcmp\<close> of the C library. C fixes the sign of its result only; here the result is
  \<open>- 1\<close>, \<open>0\<close> or \<open>1\<close>, and the callers test nothing but the sign.
\<close>

fun strcmp :: "cstring \<Rightarrow> cstring \<Rightarrow> int" where
  "strcmp [] [] = 0"
| "strcmp [] (y # ys) = - 1"
| "strcmp (x # xs) [] = 1"
| "strcmp (x # xs) (y # ys) =
     (if x = y then strcmp xs ys else if x < y then - 1 else 1)"

definition HEADER_SIZE :: gsize where
  "HEADER_SIZE = 8"

definition MAX_MESSAGE_LENGTH :: gint where
  "MAX_MESSAGE_LENGTH = 1024"

subsection \<open>Messages and signals\<close>

text \<open>Messages from the greeter to the server (\<^verbatim>\<open>GreeterMessage\<close>).\<close>

definition GREETER_MESSAGE_CONNECT :: guint32 where
  "GREETER_MESSAGE_CONNECT = 0"
definition GREETER_MESSAGE_LOGIN :: guint32 where
  "GREETER_MESSAGE_LOGIN = 1"
definition GREETER_MESSAGE_LOGIN_AS_GUEST :: guint32 where
  "GREETER_MESSAGE_LOGIN_AS_GUEST = 2"
definition GREETER_MESSAGE_CONTINUE_AUTHENTICATION :: guint32 where
  "GREETER_MESSAGE_CONTINUE_AUTHENTICATION = 3"
definition GREETER_MESSAGE_START_SESSION :: guint32 where
  "GREETER_MESSAGE_START_SESSION = 4"
definition GREETER_MESSAGE_CANCEL_AUTHENTICATION :: guint32 where
  "GREETER_MESSAGE_CANCEL_AUTHENTICATION = 5"

text \<open>Messages from the server to the greeter (\<^verbatim>\<open>ServerMessage\<close>).\<close>

definition SERVER_MESSAGE_CONNECTED :: guint32 where
  "SERVER_MESSAGE_CONNECTED = 0"
definition SERVER_MESSAGE_QUIT :: guint32 where
  "SERVER_MESSAGE_QUIT = 1"
definition SERVER_MESSAGE_PROMPT_AUTHENTICATION :: guint32 where
  "SERVER_MESSAGE_PROMPT_AUTHENTICATION = 2"
definition SERVER_MESSAGE_END_AUTHENTICATION :: guint32 where
  "SERVER_MESSAGE_END_AUTHENTICATION = 3"
definition SERVER_MESSAGE_SESSION_FAILED :: guint32 where
  "SERVER_MESSAGE_SESSION_FAILED = 4"

text \<open>
  The message styles of \<^verbatim>\<open>security/pam_appl.h\<close> (Linux-PAM), a header outside the
  repository.
\<close>

definition PAM_PROMPT_ECHO_OFF :: guint32 where
  "PAM_PROMPT_ECHO_OFF = 1"
definition PAM_PROMPT_ECHO_ON :: guint32 where
  "PAM_PROMPT_ECHO_ON = 2"
definition PAM_ERROR_MSG :: guint32 where
  "PAM_ERROR_MSG = 3"
definition PAM_TEXT_INFO :: guint32 where
  "PAM_TEXT_INFO = 4"

datatype LdmPromptType = LDM_PROMPT_TYPE_QUESTION | LDM_PROMPT_TYPE_SECRET

datatype LdmMessageType = LDM_MESSAGE_TYPE_INFO | LDM_MESSAGE_TYPE_ERROR

text \<open>
  The signals of the greeter object, with the arguments they are emitted with. A user
  is passed by reference: the argument is the address of the \<^verbatim>\<open>LdmUser\<close> object.
\<close>

datatype signal =
    CONNECTED
  | SHOW_PROMPT cstring LdmPromptType
  | SHOW_MESSAGE cstring LdmMessageType
  | AUTHENTICATION_COMPLETE
  | SESSION_FAILED
  | AUTOLOGIN_TIMER_EXPIRED
  | USER_ADDED nat
  | USER_CHANGED nat
  | USER_REMOVED nat
  | QUIT

subsection \<open>The state of a greeter\<close>

text \<open>
  Modelled from the spec: \<^verbatim>\<open>LdmUser\<close> is declared in \<^verbatim>\<open>user-private.h\<close> and implemented in
  \<^verbatim>\<open>user.c\<close>, neither of which is among the sources. The spec gives a user the fields
  name (the identity), real name (optional), home directory, avatar URI (optional) and
  logged-in flag.
\<close>

record LdmUser =
  user_name :: cstring
  user_real_name :: "cstring option"
  user_home_directory :: cstring
  user_image :: "cstring option"
  user_logged_in :: bool

text \<open>
  \<^verbatim>\<open>struct _LdmGreeterPrivate\<close>, restricted to the fields used by the functions below.
  \<^item> \<open>to_server_channel\<close> holds the byte strings written to the daemon, oldest first;
  \<^item> \<open>read_buffer\<close> is the content of the allocated read buffer and \<open>n_read\<close> the number of
    bytes received into it;
  \<^item> \<open>users\<close> is the \<^verbatim>\<open>GList\<close> of user objects, as the list of their addresses;
    \<open>user_heap\<close> gives the fields of the \<^verbatim>\<open>LdmUser\<close> object at each address, and the objects
    allocated so far are those at the addresses below \<open>user_count\<close>;
  \<^item> \<open>hints\<close> is the \<^verbatim>\<open>GHashTable\<close> from hint names to values;
  \<^item> \<open>login_timeout\<close> is the interval in milliseconds of the armed autologin timer, or 0
    when none was armed (the source stores the identifier of the GLib timeout source).
\<close>

record LdmGreeterPrivate =
  to_server_channel :: "guint8 list list"
  read_buffer :: "guint8 list"
  n_read :: gsize
  have_users :: bool
  users :: "nat list"
  user_heap :: "nat \<Rightarrow> LdmUser"
  user_count :: nat
  authentication_user :: "cstring option"
  in_authentication :: bool
  is_authenticated :: bool
  authenticate_sequence_number :: guint32
  cancelling_authentication :: bool
  hints :: "cstring \<rightharpoonup> cstring"
  login_timeout :: guint32

text \<open>
  An emitted signal is recorded together with the state of the greeter at the moment of
  the emission: this is what a handler connected to the signal sees when it calls the
  getters of the greeter. The handlers are taken to observe the greeter only, not to call
  its requests from within the emission.
\<close>

type_synonym event = "signal \<times> LdmGreeterPrivate"

definition g_signal_emit :: "LdmGreeterPrivate \<Rightarrow> signal \<Rightarrow> event list" where
  "g_signal_emit greeter sig = [(sig, greeter)]"

subsection \<open>Wire codec\<close>

definition int_length :: guint32 where
  "int_length = 4"

definition write_message :: "LdmGreeterPrivate \<Rightarrow> guint8 list \<Rightarrow> gsize \<Rightarrow> LdmGreeterPrivate" where
  "write_message greeter message message_length =
     greeter\<lparr>to_server_channel :=
       to_server_channel greeter @ [take (unat message_length) message]\<rparr>"

definition store_byte :: "guint8 list \<Rightarrow> gsize \<Rightarrow> guint8 \<Rightarrow> guint8 list option" where
  \<comment> \<open>\<^verbatim>\<open>buffer[i] = b\<close>: undefined outside the array\<close>
  "store_byte buffer i b =
     (if unat i < length buffer then Some (buffer[unat i := b]) else None)"

definition write_int ::
  "guint8 list \<Rightarrow> gint \<Rightarrow> guint32 \<Rightarrow> gsize \<Rightarrow> (guint8 list \<times> gsize) option" where
  "write_int buffer buffer_length v offset =
     (if offset + 4 \<ge> scast buffer_length then Some (buffer, offset)
      else do {
        b0 \<leftarrow> store_byte buffer offset (ucast (drop_bit 24 v));
        b1 \<leftarrow> store_byte b0 (offset + 1) (ucast (drop_bit 16 v AND 0xFF));
        b2 \<leftarrow> store_byte b1 (offset + 2) (ucast (drop_bit 8 v AND 0xFF));
        b3 \<leftarrow> store_byte b2 (offset + 3) (ucast (v AND 0xFF));
        Some (b3, offset + 4)
      })"

definition memcpy_to :: "guint8 list \<Rightarrow> gsize \<Rightarrow> cstring \<Rightarrow> gsize \<Rightarrow> guint8 list option" where
  \<comment> \<open>\<^verbatim>\<open>memcpy (buffer + offset, value, n)\<close>: the source string holds \<open>strlen + 1\<close> bytes\<close>
  "memcpy_to buffer offset v n =
     (if unat offset + unat n \<le> length buffer \<and> unat n \<le> length v + 1
      then Some (take (unat offset) buffer @ take (unat n) (v @ [0])
                 @ drop (unat offset + unat n) buffer)
      else None)"

definition write_string ::
  "guint8 list \<Rightarrow> gint \<Rightarrow> cstring \<Rightarrow> gsize \<Rightarrow> (guint8 list \<times> gsize) option" where
  "write_string buffer buffer_length v offset =
     (let len = (word_of_nat (length v) :: gint) in
      do {
        (buffer1, offset1) \<leftarrow> write_int buffer buffer_length len offset;
        if offset1 + scast len \<ge> scast buffer_length then Some (buffer1, offset1)
        else do {
          buffer2 \<leftarrow> memcpy_to buffer1 offset1 v (scast len);
          Some (buffer2, offset1 + scast len)
        }
      })"

definition buffer_byte :: "LdmGreeterPrivate \<Rightarrow> gsize \<Rightarrow> guint8 option" where
  \<comment> \<open>\<^verbatim>\<open>read_buffer[i]\<close>: only a byte that was received has a value\<close>
  "buffer_byte greeter i =
     (if unat i < unat (n_read greeter) \<and> unat i < length (read_buffer greeter)
      then Some (read_buffer greeter ! unat i) else None)"

definition read_int :: "LdmGreeterPrivate \<Rightarrow> gsize \<Rightarrow> (guint32 \<times> gsize) option" where
  "read_int greeter offset =
     (if n_read greeter - offset < ucast int_length then Some (0, offset)
      else do {
        b0 \<leftarrow> buffer_byte greeter offset;
        b1 \<leftarrow> buffer_byte greeter (offset + 1);
        b2 \<leftarrow> buffer_byte greeter (offset + 2);
        b3 \<leftarrow> buffer_byte greeter (offset + 3);
        Some (push_bit 24 (ucast b0) OR push_bit 16 (ucast b1)
                OR push_bit 8 (ucast b2) OR ucast b3,
              offset + ucast int_length)
      })"

definition memcpy_from :: "LdmGreeterPrivate \<Rightarrow> gsize \<Rightarrow> guint32 \<Rightarrow> guint8 list option" where
  \<comment> \<open>\<^verbatim>\<open>memcpy (value, read_buffer + offset, length)\<close>\<close>
  "memcpy_from greeter offset len =
     (if unat offset + unat len \<le> unat (n_read greeter)
         \<and> unat offset + unat len \<le> length (read_buffer greeter)
      then Some (take (unat len) (drop (unat offset) (read_buffer greeter)))
      else None)"

definition read_string :: "LdmGreeterPrivate \<Rightarrow> gsize \<Rightarrow> (cstring \<times> gsize) option" where
  \<comment> \<open>\<^verbatim>\<open>g_malloc (length + 1)\<close> is computed in 32 bits: when it wraps to 0 nothing is
      allocated and the copy is undefined\<close>
  "read_string greeter offset =
     do {
       (len, offset1) \<leftarrow> read_int greeter offset;
       if n_read greeter - offset1 < ucast len then Some ([], offset1)
       else if len + 1 = 0 then None
       else do {
         v \<leftarrow> memcpy_from greeter offset1 len;
         Some (c_str v, offset1 + ucast len)
       }
     }"

definition string_length :: "cstring \<Rightarrow> guint32" where
  "string_length v = int_length + word_of_nat (length v)"

definition write_header ::
  "guint8 list \<Rightarrow> gint \<Rightarrow> guint32 \<Rightarrow> guint32 \<Rightarrow> gsize \<Rightarrow> (guint8 list \<times> gsize) option" where
  "write_header buffer buffer_length ident len offset =
     do {
       (buffer1, offset1) \<leftarrow> write_int buffer buffer_length ident offset;
       write_int buffer1 buffer_length len offset1
     }"

definition get_packet_length :: "LdmGreeterPrivate \<Rightarrow> guint32 option" where
  "get_packet_length greeter = map_option fst (read_int greeter 4)"

subsection \<open>Messages from the server\<close>

text \<open>
  The handlers return the new state of the greeter and the signals emitted, in order.
  The read offset is local to \<^verbatim>\<open>from_server_cb\<close> and is not used after a handler returns.
\<close>

type_synonym handled = "(LdmGreeterPrivate \<times> event list) option"

definition ldm_greeter_get_hint :: "LdmGreeterPrivate \<Rightarrow> cstring \<Rightarrow> cstring option" where
  "ldm_greeter_get_hint greeter nm = hints greeter nm"

text \<open>
  \<^verbatim>\<open>atoi\<close> of the C library, which glibc defines as \<^verbatim>\<open>(int) strtol (nptr, NULL, 10)\<close>.
  \<^verbatim>\<open>strtol\<close> skips white space, takes an optional sign and the decimal digits that follow,
  and yields \<^verbatim>\<open>LONG_MAX\<close> or \<^verbatim>\<open>LONG_MIN\<close>, of 64 bits, for a number out of the range of
  \<^verbatim>\<open>long\<close>; the conversion to \<^verbatim>\<open>int\<close> keeps the low 32 bits.
\<close>

definition isspace :: "gchar \<Rightarrow> bool" where
  "isspace c = (c = 0x20 \<or> (0x09 \<le> c \<and> c \<le> 0x0D))"

fun digits_value :: "int \<Rightarrow> cstring \<Rightarrow> int" where
  "digits_value acc [] = acc"
| "digits_value acc (c # cs) =
     (if 0x30 \<le> c \<and> c \<le> 0x39 then digits_value (acc * 10 + (uint c - 48)) cs else acc)"

definition LONG_MAX :: int where
  "LONG_MAX = 2 ^ 63 - 1"

definition LONG_MIN :: int where
  "LONG_MIN = - (2 ^ 63)"

definition strtol :: "cstring \<Rightarrow> int" where
  \<comment> \<open>\<^verbatim>\<open>strtol (nptr, NULL, 10)\<close>\<close>
  "strtol nptr =
     (case dropWhile isspace nptr of
        [] \<Rightarrow> 0
      | c # cs \<Rightarrow>
          if c = 0x2D then max LONG_MIN (- digits_value 0 cs)
          else if c = 0x2B then min LONG_MAX (digits_value 0 cs)
          else min LONG_MAX (digits_value 0 (c # cs)))"

definition atoi :: "cstring \<Rightarrow> gint" where
  "atoi nptr = word_of_int (strtol nptr)"

definition hint_autologin_timeout :: cstring where
  \<comment> \<open>the string literal \<^verbatim>\<open>"autologin-timeout"\<close>\<close>
  "hint_autologin_timeout =
     [0x61, 0x75, 0x74, 0x6F, 0x6C, 0x6F, 0x67, 0x69, 0x6E, 0x2D,
      0x74, 0x69, 0x6D, 0x65, 0x6F, 0x75, 0x74]"

definition ldm_greeter_get_autologin_timeout_hint :: "LdmGreeterPrivate \<Rightarrow> gint" where
  "ldm_greeter_get_autologin_timeout_hint greeter =
     (let timeout = (case ldm_greeter_get_hint greeter hint_autologin_timeout of
                       None \<Rightarrow> 0 | Some v \<Rightarrow> atoi v)
      in if timeout <s 0 then 0 else timeout)"

text \<open>
  The loop of \<^verbatim>\<open>handle_connected\<close>, \<^verbatim>\<open>while (*offset < length)\<close>, with the hint table as its
  accumulator.
  \<^item> The table is created with \<^verbatim>\<open>g_free\<close> as the destructor of its keys, so
    \<^verbatim>\<open>g_hash_table_insert\<close> with a name that the table already has frees the name that was
    passed to it. The next statement, \<^verbatim>\<open>g_string_append_printf\<close>, reads that name: a read
    of freed memory, \<open>None\<close> here.
  \<^item> A \<^verbatim>\<open>read_string\<close> that finds fewer than four bytes does not advance the offset; not
    returning would be \<open>None\<close> as well.
\<close>

partial_function (option) read_hints ::
  "LdmGreeterPrivate \<Rightarrow> guint32 \<Rightarrow> gsize \<Rightarrow> (cstring \<rightharpoonup> cstring)
     \<Rightarrow> (cstring \<rightharpoonup> cstring) option" where
  "read_hints greeter len offset h =
     (if offset < ucast len then
        do {
          (nm, offset1) \<leftarrow> read_string greeter offset;
          (v, offset2) \<leftarrow> read_string greeter offset1;
          if h nm \<noteq> None then None
          else read_hints greeter len offset2 (h(nm \<mapsto> v))
        }
      else Some h)"

declare read_hints.simps [code]

definition handle_connected :: "LdmGreeterPrivate \<Rightarrow> guint32 \<Rightarrow> gsize \<Rightarrow> handled" where
  "handle_connected greeter len offset =
     do {
       (version, offset1) \<leftarrow> read_string greeter offset;
       h \<leftarrow> read_hints greeter len offset1 (hints greeter);
       let greeter1 = greeter\<lparr>hints := h\<rparr>;
       let timeout = ldm_greeter_get_autologin_timeout_hint greeter1;
       let greeter2 = (if timeout \<noteq> 0 then greeter1\<lparr>login_timeout := timeout * 1000\<rparr>
                       else greeter1);
       Some (greeter2, g_signal_emit greeter2 CONNECTED)
     }"

text \<open>
  The loop of \<^verbatim>\<open>handle_prompt_authentication\<close>,
  \<^verbatim>\<open>for (i = 0; i < n_messages; i++)\<close>: the signals of messages \<open>i\<close>, \<open>i + 1\<close>, ...
\<close>

function prompt_messages ::
  "LdmGreeterPrivate \<Rightarrow> guint32 \<Rightarrow> guint32 \<Rightarrow> gsize \<Rightarrow> event list option" where
  "prompt_messages greeter i n_messages offset =
     (if i < n_messages then
        (case read_int greeter offset of
           None \<Rightarrow> None
         | Some (msg_style, offset1) \<Rightarrow>
             (case read_string greeter offset1 of
                None \<Rightarrow> None
              | Some (msg, offset2) \<Rightarrow>
                  (case prompt_messages greeter (i + 1) n_messages offset2 of
                     None \<Rightarrow> None
                   | Some rest \<Rightarrow>
                       Some ((if msg_style = PAM_PROMPT_ECHO_OFF
                              then g_signal_emit greeter (SHOW_PROMPT msg LDM_PROMPT_TYPE_SECRET)
                              else if msg_style = PAM_PROMPT_ECHO_ON
                              then g_signal_emit greeter (SHOW_PROMPT msg LDM_PROMPT_TYPE_QUESTION)
                              else if msg_style = PAM_ERROR_MSG
                              then g_signal_emit greeter (SHOW_MESSAGE msg LDM_MESSAGE_TYPE_ERROR)
                              else if msg_style = PAM_TEXT_INFO
                              then g_signal_emit greeter (SHOW_MESSAGE msg LDM_MESSAGE_TYPE_INFO)
                              else []) @ rest))))
      else Some [])"
  by pat_completeness auto
termination
proof (relation "measure (\<lambda>(greeter, i, n_messages, offset). unat n_messages - unat i)")
  show "wf (measure (\<lambda>(greeter, i, n_messages, offset). unat n_messages - unat i))"
    by simp
next
  fix greeter :: LdmGreeterPrivate and i n_messages :: guint32 and offset :: gsize
  assume less: "i < n_messages"
  then have "unat i < unat n_messages"
    by (simp add: word_less_nat_alt)
  moreover from less have "1 + i \<noteq> 0"
    by (metis add_eq_0_iff word_order.extremum_strict)
  then have "unat (i + 1) = unat i + 1"
    by (simp add: unatSuc add.commute)
  ultimately show "((greeter, i + 1, n_messages, offset2), (greeter, i, n_messages, offset))
      \<in> measure (\<lambda>(greeter, i, n_messages, offset). unat n_messages - unat i)"
    for offset2
    by simp
qed

definition handle_prompt_authentication :: "LdmGreeterPrivate \<Rightarrow> gsize \<Rightarrow> handled" where
  "handle_prompt_authentication greeter offset =
     do {
       (sequence_number, offset1) \<leftarrow> read_int greeter offset;
       if sequence_number \<noteq> authenticate_sequence_number greeter then Some (greeter, [])
       else if cancelling_authentication greeter then Some (greeter, [])
       else do {
         (n_messages, offset2) \<leftarrow> read_int greeter offset1;
         evs \<leftarrow> prompt_messages greeter 0 n_messages offset2;
         Some (greeter, evs)
       }
     }"

definition handle_end_authentication :: "LdmGreeterPrivate \<Rightarrow> gsize \<Rightarrow> handled" where
  "handle_end_authentication greeter offset =
     do {
       (sequence_number, offset1) \<leftarrow> read_int greeter offset;
       (return_code, offset2) \<leftarrow> read_int greeter offset1;
       if sequence_number \<noteq> authenticate_sequence_number greeter then Some (greeter, [])
       else do {
         let greeter1 = greeter\<lparr>cancelling_authentication := False\<rparr>;
         let greeter2 = greeter1\<lparr>is_authenticated := (return_code = 0)\<rparr>;
         let greeter3 = (if \<not> is_authenticated greeter2
                         then greeter2\<lparr>authentication_user := None\<rparr> else greeter2);
         let evs = g_signal_emit greeter3 AUTHENTICATION_COMPLETE;
         Some (greeter3\<lparr>in_authentication := False\<rparr>, evs)
       }
     }"

definition handle_session_failed :: "LdmGreeterPrivate \<Rightarrow> gsize \<Rightarrow> handled" where
  "handle_session_failed greeter offset = Some (greeter, g_signal_emit greeter SESSION_FAILED)"

definition handle_quit :: "LdmGreeterPrivate \<Rightarrow> gsize \<Rightarrow> handled" where
  "handle_quit greeter offset = Some (greeter, g_signal_emit greeter QUIT)"

text \<open>
  \<^verbatim>\<open>from_server_cb\<close> once \<^verbatim>\<open>read_packet\<close> has returned \<^verbatim>\<open>TRUE\<close>, that is with one whole packet
  in the read buffer. (When \<^verbatim>\<open>read_packet\<close> returns \<^verbatim>\<open>FALSE\<close> the callback returns at once;
  the reads from the channel are not modelled.)
\<close>

definition from_server_cb :: "LdmGreeterPrivate \<Rightarrow> handled" where
  "from_server_cb greeter =
     do {
       (ident, offset1) \<leftarrow> read_int greeter 0;
       (len, offset2) \<leftarrow> read_int greeter offset1;
       (greeter1, evs) \<leftarrow>
         (if ident = SERVER_MESSAGE_CONNECTED then handle_connected greeter len offset2
          else if ident = SERVER_MESSAGE_PROMPT_AUTHENTICATION
          then handle_prompt_authentication greeter offset2
          else if ident = SERVER_MESSAGE_END_AUTHENTICATION
          then handle_end_authentication greeter offset2
          else if ident = SERVER_MESSAGE_SESSION_FAILED
          then handle_session_failed greeter offset2
          else if ident = SERVER_MESSAGE_QUIT then handle_quit greeter offset2
          else Some (greeter, []));
       Some (greeter1\<lparr>n_read := 0\<rparr>, evs)
     }"

text \<open>
  The outcome of a \<^verbatim>\<open>read_packet\<close> that returns \<^verbatim>\<open>TRUE\<close>: the bytes of one packet, header
  and payload, are in the read buffer and \<open>n_read\<close> is their number.
\<close>

definition packet_read :: "LdmGreeterPrivate \<Rightarrow> guint8 list \<Rightarrow> LdmGreeterPrivate" where
  "packet_read greeter packet =
     greeter\<lparr>read_buffer := packet, n_read := word_of_nat (length packet)\<rparr>"

text \<open>The packets of a list dispatched one after the other, with all the signals emitted.\<close>

fun from_server :: "LdmGreeterPrivate \<Rightarrow> guint8 list list \<Rightarrow> handled" where
  "from_server greeter [] = Some (greeter, [])"
| "from_server greeter (packet # packets) =
     (case from_server_cb (packet_read greeter packet) of
        None \<Rightarrow> None
      | Some (greeter1, evs) \<Rightarrow>
          (case from_server greeter1 packets of
             None \<Rightarrow> None
           | Some (greeter2, evs2) \<Rightarrow> Some (greeter2, evs @ evs2)))"

subsection \<open>Requests of the greeter\<close>

text \<open>
  \<^verbatim>\<open>ldm_greeter_init\<close>: the private structure is zero-filled by GObject, the read buffer has
  \<^verbatim>\<open>HEADER_SIZE\<close> bytes and the hint table is empty.
\<close>

definition no_user :: LdmUser where
  \<comment> \<open>the content of the heap where no user object was allocated\<close>
  "no_user = \<lparr>user_name = [], user_real_name = None, user_home_directory = [],
               user_image = None, user_logged_in = False\<rparr>"

definition ldm_greeter_init :: LdmGreeterPrivate where
  "ldm_greeter_init =
     \<lparr>to_server_channel = [], read_buffer = replicate 8 0, n_read = 0,
      have_users = False, users = [], user_heap = (\<lambda>a. no_user), user_count = 0,
      authentication_user = None, in_authentication = False, is_authenticated = False,
      authenticate_sequence_number = 0, cancelling_authentication = False,
      hints = Map.empty, login_timeout = 0\<rparr>"

text \<open>
  The local array \<^verbatim>\<open>guint8 message[MAX_MESSAGE_LENGTH]\<close> of the requests. C leaves its
  content indeterminate; only the bytes below the write offset, all of them written by
  the request, are passed to \<^verbatim>\<open>write_message\<close>.
\<close>

definition message_array :: "guint8 list" where
  "message_array = replicate 1024 0"

definition ldm_greeter_login :: "LdmGreeterPrivate \<Rightarrow> cstring option \<Rightarrow> LdmGreeterPrivate option" where
  "ldm_greeter_login greeter username_arg =
     (let username = (case username_arg of None \<Rightarrow> [] | Some u \<Rightarrow> u);
          greeter1 = greeter\<lparr>cancelling_authentication := False\<rparr>;
          greeter2 = greeter1\<lparr>authenticate_sequence_number :=
                       authenticate_sequence_number greeter1 + 1\<rparr>;
          greeter3 = greeter2\<lparr>in_authentication := True\<rparr>;
          greeter4 = greeter3\<lparr>is_authenticated := False\<rparr>;
          greeter5 = greeter4\<lparr>authentication_user := Some username\<rparr>
      in do {
        (message1, offset1) \<leftarrow>
          write_header message_array MAX_MESSAGE_LENGTH GREETER_MESSAGE_LOGIN
            (int_length + string_length username) 0;
        (message2, offset2) \<leftarrow>
          write_int message1 MAX_MESSAGE_LENGTH (authenticate_sequence_number greeter5) offset1;
        (message3, offset3) \<leftarrow> write_string message2 MAX_MESSAGE_LENGTH username offset2;
        Some (write_message greeter5 message3 offset3)
      })"

definition ldm_greeter_login_with_user_prompt :: "LdmGreeterPrivate \<Rightarrow> LdmGreeterPrivate option" where
  "ldm_greeter_login_with_user_prompt greeter = ldm_greeter_login greeter None"

definition ldm_greeter_login_as_guest :: "LdmGreeterPrivate \<Rightarrow> LdmGreeterPrivate option" where
  "ldm_greeter_login_as_guest greeter =
     (let greeter1 = greeter\<lparr>cancelling_authentication := False\<rparr>;
          greeter2 = greeter1\<lparr>authenticate_sequence_number :=
                       authenticate_sequence_number greeter1 + 1\<rparr>;
          greeter3 = greeter2\<lparr>in_authentication := True\<rparr>;
          greeter4 = greeter3\<lparr>is_authenticated := False\<rparr>;
          greeter5 = greeter4\<lparr>authentication_user := None\<rparr>
      in do {
        (message1, offset1) \<leftarrow>
          write_header message_array MAX_MESSAGE_LENGTH GREETER_MESSAGE_LOGIN_AS_GUEST
            int_length 0;
        (message2, offset2) \<leftarrow>
          write_int message1 MAX_MESSAGE_LENGTH (authenticate_sequence_number greeter5) offset1;
        Some (write_message greeter5 message2 offset2)
      })"

definition ldm_greeter_respond :: "LdmGreeterPrivate \<Rightarrow> cstring \<Rightarrow> LdmGreeterPrivate option" where
  "ldm_greeter_respond greeter response =
     do {
       (message1, offset1) \<leftarrow>
         write_header message_array MAX_MESSAGE_LENGTH GREETER_MESSAGE_CONTINUE_AUTHENTICATION
           (int_length + string_length response) 0;
       (message2, offset2) \<leftarrow> write_int message1 MAX_MESSAGE_LENGTH 1 offset1;
       (message3, offset3) \<leftarrow> write_string message2 MAX_MESSAGE_LENGTH response offset2;
       Some (write_message greeter message3 offset3)
     }"

definition ldm_greeter_cancel_authentication :: "LdmGreeterPrivate \<Rightarrow> LdmGreeterPrivate option" where
  "ldm_greeter_cancel_authentication greeter =
     (let greeter1 = greeter\<lparr>cancelling_authentication := True\<rparr>
      in do {
        (message1, offset1) \<leftarrow>
          write_header message_array MAX_MESSAGE_LENGTH GREETER_MESSAGE_CANCEL_AUTHENTICATION 0 0;
        Some (write_message greeter1 message1 offset1)
      })"

definition ldm_greeter_get_in_authentication :: "LdmGreeterPrivate \<Rightarrow> bool" where
  "ldm_greeter_get_in_authentication greeter = in_authentication greeter"

definition ldm_greeter_get_is_authenticated :: "LdmGreeterPrivate \<Rightarrow> bool" where
  "ldm_greeter_get_is_authenticated greeter = is_authenticated greeter"

text \<open>The result is a \<^verbatim>\<open>const gchar *\<close>: \<open>None\<close> is the \<^verbatim>\<open>NULL\<close> pointer.\<close>

definition ldm_greeter_get_authentication_user :: "LdmGreeterPrivate \<Rightarrow> cstring option" where
  "ldm_greeter_get_authentication_user greeter = authentication_user greeter"

text \<open>
  A call of \<^verbatim>\<open>ldm_greeter_login\<close> (with a user name or \<^verbatim>\<open>NULL\<close>) or of
  \<^verbatim>\<open>ldm_greeter_login_as_guest\<close>.
\<close>

datatype login_call = Login "cstring option" | LoginAsGuest

fun do_login :: "LdmGreeterPrivate \<Rightarrow> login_call \<Rightarrow> LdmGreeterPrivate option" where
  "do_login greeter (Login username) = ldm_greeter_login greeter username"
| "do_login greeter LoginAsGuest = ldm_greeter_login_as_guest greeter"

subsection \<open>The list of users\<close>

text \<open>
  Modelled from the spec: the functions of \<^verbatim>\<open>user.c\<close> that \<^verbatim>\<open>load_users\<close> calls are not among
  the sources. By the spec the display name of a user is its real name, falling back to
  the account name when no real name is set, and an update changes the user in place and
  reports a change exactly when an observable field differs.
\<close>

definition ldm_user_get_name :: "LdmUser \<Rightarrow> cstring" where
  "ldm_user_get_name user = user_name user"

definition ldm_user_get_display_name :: "LdmUser \<Rightarrow> cstring" where
  "ldm_user_get_display_name user =
     (case user_real_name user of Some r \<Rightarrow> r | None \<Rightarrow> user_name user)"

definition ldm_user_new ::
  "LdmGreeterPrivate \<Rightarrow> cstring \<Rightarrow> cstring option \<Rightarrow> cstring \<Rightarrow> cstring option \<Rightarrow> bool
     \<Rightarrow> nat \<times> LdmGreeterPrivate" where
  \<comment> \<open>a new object, at an address that no object allocated before has\<close>
  "ldm_user_new greeter nm real_name home_directory image_uri logged_in =
     (user_count greeter,
      greeter\<lparr>user_heap := (user_heap greeter)(user_count greeter :=
                 \<lparr>user_name = nm, user_real_name = real_name,
                  user_home_directory = home_directory, user_image = image_uri,
                  user_logged_in = logged_in\<rparr>),
               user_count := Suc (user_count greeter)\<rparr>)"

definition ldm_user_update ::
  "LdmGreeterPrivate \<Rightarrow> nat \<Rightarrow> cstring option \<Rightarrow> cstring \<Rightarrow> cstring option \<Rightarrow> bool
     \<Rightarrow> bool \<times> LdmGreeterPrivate" where
  "ldm_user_update greeter user real_name home_directory image_uri logged_in =
     (let u = user_heap greeter user in
      if user_real_name u = real_name \<and> user_home_directory u = home_directory
         \<and> user_image u = image_uri \<and> user_logged_in u = logged_in
      then (False, greeter)
      else (True,
            greeter\<lparr>user_heap := (user_heap greeter)(user :=
              u\<lparr>user_real_name := real_name, user_home_directory := home_directory,
                user_image := image_uri, user_logged_in := logged_in\<rparr>)\<rparr>))"

definition compare_user :: "LdmGreeterPrivate \<Rightarrow> nat \<Rightarrow> nat \<Rightarrow> int" where
  "compare_user greeter a b =
     strcmp (ldm_user_get_display_name (user_heap greeter a))
            (ldm_user_get_display_name (user_heap greeter b))"

text \<open>
  \<^verbatim>\<open>g_list_insert_sorted\<close> of GLib: the new element goes before the first element that it
  does not compare greater than.
\<close>

fun g_list_insert_sorted :: "'a list \<Rightarrow> 'a \<Rightarrow> ('a \<Rightarrow> 'a \<Rightarrow> int) \<Rightarrow> 'a list" where
  "g_list_insert_sorted [] d func = [d]"
| "g_list_insert_sorted (x # xs) d func =
     (if func d x > 0 then x # g_list_insert_sorted xs d func else d # x # xs)"

text \<open>
  \<^verbatim>\<open>g_strsplit (string, delimiter, -1)\<close> of GLib for a delimiter of one character: the
  pieces between the delimiters, and no piece at all for the empty string.
\<close>

fun split_at :: "gchar \<Rightarrow> cstring \<Rightarrow> cstring list" where
  "split_at d [] = [[]]"
| "split_at d (c # cs) =
     (if c = d then [] # split_at d cs
      else (case split_at d cs of [] \<Rightarrow> [[c]] | t # ts \<Rightarrow> (c # t) # ts))"

definition g_strsplit :: "cstring \<Rightarrow> gchar \<Rightarrow> cstring list" where
  "g_strsplit s d = (if s = [] then [] else split_at d s)"

definition bytes :: "string \<Rightarrow> cstring" where
  \<comment> \<open>a string literal of the source\<close>
  "bytes s = map of_char s"

text \<open>An entry of the password database, \<^verbatim>\<open>struct passwd\<close>, with the fields that are read.\<close>

record passwd =
  pw_name :: cstring
  pw_uid :: guint32
  pw_shell :: "cstring option"
  pw_gecos :: cstring
  pw_dir :: cstring

text \<open>
  What \<^verbatim>\<open>load_users\<close> reads from outside the program during one run:
  \<^item> the keys of the group \<^verbatim>\<open>UserAccounts\<close> of \<^verbatim>\<open>/etc/lightdm/users.conf\<close>, \<open>None\<close> for a
    key that the file does not have;
  \<^item> the entries that \<^verbatim>\<open>getpwent\<close> returns, in order;
  \<^item> the GLib functions on file names, which depend on the file system and on the
    platform.
\<close>

record environment =
  conf_minimum_uid :: "gint option"
  conf_hidden_users :: "cstring option"
  conf_hidden_shells :: "cstring option"
  passwd_entries :: "passwd list"
  g_file_test_exists :: "cstring \<Rightarrow> bool"
  g_build_filename :: "cstring \<Rightarrow> cstring \<Rightarrow> cstring"
  g_filename_to_uri :: "cstring \<Rightarrow> cstring option"

text \<open>
  The local variables of \<^verbatim>\<open>load_users\<close> that its first loop updates, next to the greeter
  (whose user objects the loop allocates and updates).
\<close>

record load_state =
  ls_greeter :: LdmGreeterPrivate
  ls_users :: "nat list"
  ls_new_users :: "nat list"
  ls_changed_users :: "nat list"

fun find_user :: "LdmGreeterPrivate \<Rightarrow> nat list \<Rightarrow> cstring \<Rightarrow> nat option" where
  \<comment> \<open>the first user of the list with the name, \<open>None\<close> when the loop ends with a null link\<close>
  "find_user greeter [] nm = None"
| "find_user greeter (info # link) nm =
     (if strcmp (ldm_user_get_name (user_heap greeter info)) nm = 0 then Some info
      else find_user greeter link nm)"

definition get_user_by_name :: "LdmGreeterPrivate \<Rightarrow> cstring \<Rightarrow> nat option" where
  "get_user_by_name greeter username = find_user greeter (users greeter) username"

definition load_entry ::
  "environment \<Rightarrow> guint32 \<Rightarrow> cstring list \<Rightarrow> cstring list \<Rightarrow> passwd \<Rightarrow> load_state
     \<Rightarrow> load_state" where
  \<comment> \<open>the body of the loop over the password database, for one entry\<close>
  "load_entry env minimum_uid hidden_users hidden_shells entry st =
     (if pw_uid entry < minimum_uid then st
      else if (case pw_shell entry of
                 None \<Rightarrow> False
               | Some shell \<Rightarrow> list_ex (\<lambda>h. strcmp shell h = 0) hidden_shells) then st
      else if list_ex (\<lambda>h. strcmp (pw_name entry) h = 0) hidden_users then st
      else
        let real_name =
              (case g_strsplit (pw_gecos entry) 0x2C of
                 [] \<Rightarrow> None
               | t # ts \<Rightarrow> if t \<noteq> [] then Some t else None);
            face = g_build_filename env (pw_dir entry) (bytes ''.face'');
            face_icon = g_build_filename env (pw_dir entry) (bytes ''.face.icon'');
            image_path =
              (if g_file_test_exists env face then Some face
               else if g_file_test_exists env face_icon then Some face_icon
               else None);
            image_uri = (case image_path of Some path \<Rightarrow> g_filename_to_uri env path
                         | None \<Rightarrow> None);
            (user, greeter1) =
              ldm_user_new (ls_greeter st) (pw_name entry) real_name (pw_dir entry) image_uri
                False;
            new_user = user_heap greeter1 user
        in
          (case find_user greeter1 (users greeter1) (ldm_user_get_name new_user) of
             Some info \<Rightarrow>
               let (changed, greeter2) =
                     ldm_user_update greeter1 info (user_real_name new_user)
                       (user_home_directory new_user) (user_image new_user)
                       (user_logged_in new_user);
                   changed_users =
                     (if changed
                      then g_list_insert_sorted (ls_changed_users st) info (compare_user greeter2)
                      else ls_changed_users st)
               in st\<lparr>ls_greeter := greeter2,
                      ls_changed_users := changed_users,
                      ls_users := g_list_insert_sorted (ls_users st) info (compare_user greeter2)\<rparr>
           | None \<Rightarrow>
               let new_users =
                     (if have_users greeter1
                      then g_list_insert_sorted (ls_new_users st) user (compare_user greeter1)
                      else ls_new_users st)
               in st\<lparr>ls_greeter := greeter1,
                      ls_new_users := new_users,
                      ls_users := g_list_insert_sorted (ls_users st) user (compare_user greeter1)\<rparr>))"

fun load_entries ::
  "environment \<Rightarrow> guint32 \<Rightarrow> cstring list \<Rightarrow> cstring list \<Rightarrow> passwd list \<Rightarrow> load_state
     \<Rightarrow> load_state" where
  "load_entries env minimum_uid hidden_users hidden_shells [] st = st"
| "load_entries env minimum_uid hidden_users hidden_shells (entry # entries) st =
     load_entries env minimum_uid hidden_users hidden_shells entries
       (load_entry env minimum_uid hidden_users hidden_shells entry st)"

definition load_users :: "environment \<Rightarrow> LdmGreeterPrivate \<Rightarrow> LdmGreeterPrivate \<times> event list" where
  "load_users env greeter =
     (let minimum_uid = (case conf_minimum_uid env of Some n \<Rightarrow> n | None \<Rightarrow> 500);
          hidden_users =
            g_strsplit (case conf_hidden_users env of
                          Some v \<Rightarrow> v | None \<Rightarrow> bytes ''nobody nobody4 noaccess'') 0x20;
          hidden_shells =
            g_strsplit (case conf_hidden_shells env of
                          Some v \<Rightarrow> v | None \<Rightarrow> bytes ''/bin/false /usr/sbin/nologin'') 0x20;
          st = load_entries env minimum_uid hidden_users hidden_shells (passwd_entries env)
                 \<lparr>ls_greeter = greeter, ls_users = [], ls_new_users = [],
                  ls_changed_users = []\<rparr>;
          old_users = users (ls_greeter st);
          greeter1 = (ls_greeter st)\<lparr>users := ls_users st\<rparr>
      in (greeter1,
          concat (map (\<lambda>info. g_signal_emit greeter1 (USER_ADDED info)) (ls_new_users st))
          @ concat (map (\<lambda>info. g_signal_emit greeter1 (USER_CHANGED info)) (ls_changed_users st))
          @ concat (map (\<lambda>info. if list_ex (\<lambda>new_link. new_link = info) (users greeter1)
                                 then [] else g_signal_emit greeter1 (USER_REMOVED info))
                        old_users)))"

definition update_users :: "environment \<Rightarrow> LdmGreeterPrivate \<Rightarrow> LdmGreeterPrivate \<times> event list" where
  \<comment> \<open>the first access to the list of users; the file monitor it installs calls
      \<^verbatim>\<open>load_users\<close> again on every change of the password file\<close>
  "update_users env greeter =
     (if have_users greeter then (greeter, [])
      else let (greeter1, evs) = load_users env greeter
           in (greeter1\<lparr>have_users := True\<rparr>, evs))"

subsection \<open>Notions used in the statements\<close>

text \<open>
  The bytes counted by \<open>n_read\<close> lie in the read buffer: \<^verbatim>\<open>read_packet\<close> grows the buffer
  to the size of the packet before it reads the payload into it.
\<close>

definition buffer_ok :: "LdmGreeterPrivate \<Rightarrow> bool" where
  "buffer_ok greeter = (unat (n_read greeter) \<le> length (read_buffer greeter))"

text \<open>A packet of six bytes: a length prefix of 5 followed by two bytes only.\<close>

definition short_packet :: LdmGreeterPrivate where
  "short_packet = packet_read ldm_greeter_init [0, 0, 0, 5, 1, 2]"

text \<open>The four bytes that \<^verbatim>\<open>write_int\<close> stores for a value, most significant first.\<close>

definition int_bytes :: "guint32 \<Rightarrow> guint8 list" where
  "int_bytes v = [ucast (drop_bit 24 v), ucast (drop_bit 16 v AND 0xFF),
                  ucast (drop_bit 8 v AND 0xFF), ucast (v AND 0xFF)]"

text \<open>
  The layout of a LOGIN message: header (message id, payload length), sequence number,
  length-prefixed user name.
\<close>

definition login_message :: "guint32 \<Rightarrow> cstring \<Rightarrow> guint8 list" where
  "login_message n u =
     int_bytes GREETER_MESSAGE_LOGIN @ int_bytes (int_length + string_length u)
       @ int_bytes n @ int_bytes (word_of_nat (length u)) @ u"

text \<open>The layout of a LOGIN_AS_GUEST message: header and sequence number.\<close>

definition guest_message :: "guint32 \<Rightarrow> guint8 list" where
  "guest_message n =
     int_bytes GREETER_MESSAGE_LOGIN_AS_GUEST @ int_bytes int_length @ int_bytes n"

text \<open>States and packets used as concrete inputs.\<close>

definition alice :: cstring where
  "alice = bytes ''alice''"

definition long_name :: cstring where
  "long_name = replicate 1008 0x61"

text \<open>The greeter after \<^verbatim>\<open>ldm_greeter_login (greeter, "alice")\<close> on a new greeter.\<close>

definition authenticating :: LdmGreeterPrivate where
  "authenticating =
     (case ldm_greeter_login ldm_greeter_init (Some alice) of
        Some greeter \<Rightarrow> greeter | None \<Rightarrow> ldm_greeter_init)"

text \<open>The same greeter after \<^verbatim>\<open>ldm_greeter_cancel_authentication\<close>.\<close>

definition cancelling :: LdmGreeterPrivate where
  "cancelling =
     (case ldm_greeter_cancel_authentication authenticating of
        Some greeter \<Rightarrow> greeter | None \<Rightarrow> ldm_greeter_init)"

text \<open>
  The bytes of an END_AUTHENTICATION packet (sequence number, return code) and of a
  PROMPT_AUTHENTICATION packet with one message, as the daemon sends them.
\<close>

definition end_packet :: "guint32 \<Rightarrow> guint32 \<Rightarrow> guint8 list" where
  "end_packet n return_code =
     int_bytes SERVER_MESSAGE_END_AUTHENTICATION @ int_bytes 8 @ int_bytes n
       @ int_bytes return_code"

definition prompt_packet :: "guint32 \<Rightarrow> guint32 \<Rightarrow> cstring \<Rightarrow> guint8 list" where
  "prompt_packet n style msg =
     int_bytes SERVER_MESSAGE_PROMPT_AUTHENTICATION
       @ int_bytes (16 + word_of_nat (length msg)) @ int_bytes n @ int_bytes 1
       @ int_bytes style @ int_bytes (word_of_nat (length msg)) @ msg"

text \<open>
  Decoding the bytes of a message as a packet: the identifier and the length of the
  header, then an integer and a string of the payload, read with the decoding functions
  of the greeter.
\<close>

definition decode_login :: "guint8 list \<Rightarrow> (guint32 \<times> guint32 \<times> guint32 \<times> cstring) option" where
  "decode_login message =
     (let greeter = packet_read ldm_greeter_init message in
      do {
        (ident, offset1) \<leftarrow> read_int greeter 0;
        (len, offset2) \<leftarrow> read_int greeter offset1;
        (n, offset3) \<leftarrow> read_int greeter offset2;
        (u, offset4) \<leftarrow> read_string greeter offset3;
        Some (ident, len, n, u)
      })"

text \<open>\<^verbatim>\<open>ldm_greeter_login\<close>, then the decoding of the message that it wrote.\<close>

definition login_then_decode ::
  "LdmGreeterPrivate \<Rightarrow> cstring option \<Rightarrow> (guint32 \<times> guint32 \<times> guint32 \<times> cstring) option" where
  "login_then_decode greeter username =
     do {
       greeter1 \<leftarrow> ldm_greeter_login greeter username;
       decode_login (last (to_server_channel greeter1))
     }"

text \<open>The sequence number that a LOGIN or LOGIN_AS_GUEST message carries after its header.\<close>

definition carried_sequence_number :: "guint8 list \<Rightarrow> guint32 option" where
  "carried_sequence_number message =
     map_option fst (read_int (packet_read ldm_greeter_init message) 8)"

text \<open>The sequence numbers carried by the messages of a sequence of calls, in order.\<close>

fun numbers_carried :: "LdmGreeterPrivate \<Rightarrow> login_call list \<Rightarrow> guint32 list option" where
  "numbers_carried greeter [] = Some []"
| "numbers_carried greeter (c # cs) =
     do {
       greeter1 \<leftarrow> do_login greeter c;
       n \<leftarrow> carried_sequence_number (last (to_server_channel greeter1));
       ns \<leftarrow> numbers_carried greeter1 cs;
       Some (n # ns)
     }"

text \<open>A call whose user name, if any, has a length that fits the \<^verbatim>\<open>gint\<close> of \<^verbatim>\<open>write_string\<close>.\<close>

fun call_ok :: "login_call \<Rightarrow> bool" where
  "call_ok (Login (Some u)) = (length u < 2 ^ 31)"
| "call_ok (Login None) = True"
| "call_ok LoginAsGuest = True"

text \<open>The message identifier in the header of a packet.\<close>

definition packet_id :: "guint8 list \<Rightarrow> guint32 option" where
  "packet_id packet = map_option fst (read_int (packet_read ldm_greeter_init packet) 0)"

text \<open>A packet that is not a CONNECTED message.\<close>

definition later_packet :: "guint8 list \<Rightarrow> bool" where
  "later_packet packet = (packet_id packet \<noteq> Some SERVER_MESSAGE_CONNECTED)"

text \<open>The value of a hint after the packets of a list were dispatched.\<close>

definition hint_after ::
  "LdmGreeterPrivate \<Rightarrow> guint8 list list \<Rightarrow> cstring \<Rightarrow> cstring option option" where
  "hint_after greeter packets nm =
     (case from_server greeter packets of
        None \<Rightarrow> None
      | Some (greeter1, evs) \<Rightarrow> Some (ldm_greeter_get_hint greeter1 nm))"

text \<open>
  The bytes of a CONNECTED packet with one hint, as the daemon sends them: version,
  then the name and the value of the hint.
\<close>

definition connected_packet :: "cstring \<Rightarrow> cstring \<Rightarrow> cstring \<Rightarrow> guint8 list" where
  "connected_packet version nm v =
     int_bytes SERVER_MESSAGE_CONNECTED
       @ int_bytes (word_of_nat (12 + length version + length nm + length v))
       @ int_bytes (word_of_nat (length version)) @ version
       @ int_bytes (word_of_nat (length nm)) @ nm
       @ int_bytes (word_of_nat (length v)) @ v"

text \<open>A new greeter after a first CONNECTED message, which carries the hint \<^verbatim>\<open>a=b\<close>.\<close>

definition connected_once :: LdmGreeterPrivate where
  "connected_once =
     (case from_server ldm_greeter_init [connected_packet [0x31] [0x61] [0x62]] of
        Some (greeter, evs) \<Rightarrow> greeter | None \<Rightarrow> ldm_greeter_init)"

text \<open>That greeter after \<^verbatim>\<open>ldm_greeter_login (greeter, "alice")\<close>.\<close>

definition connected_authenticating :: LdmGreeterPrivate where
  "connected_authenticating =
     (case ldm_greeter_login connected_once (Some alice) of
        Some greeter \<Rightarrow> greeter | None \<Rightarrow> connected_once)"

text \<open>The signals emitted while the packets of a list were dispatched.\<close>

definition signals_after :: "LdmGreeterPrivate \<Rightarrow> guint8 list list \<Rightarrow> signal list option" where
  "signals_after greeter packets =
     (case from_server greeter packets of
        None \<Rightarrow> None
      | Some (greeter1, evs) \<Rightarrow> Some (map fst evs))"

text \<open>
  The configuration that \<^verbatim>\<open>load_users\<close> computes before it reads the password database,
  and the entries that its three filters let through.
\<close>

definition minimum_uid_of :: "environment \<Rightarrow> guint32" where
  "minimum_uid_of env = (case conf_minimum_uid env of Some n \<Rightarrow> n | None \<Rightarrow> 500)"

definition hidden_users_of :: "environment \<Rightarrow> cstring list" where
  "hidden_users_of env =
     g_strsplit (case conf_hidden_users env of
                   Some v \<Rightarrow> v | None \<Rightarrow> bytes ''nobody nobody4 noaccess'') 0x20"

definition hidden_shells_of :: "environment \<Rightarrow> cstring list" where
  "hidden_shells_of env =
     g_strsplit (case conf_hidden_shells env of
                   Some v \<Rightarrow> v | None \<Rightarrow> bytes ''/bin/false /usr/sbin/nologin'') 0x20"

definition hidden_entry :: "environment \<Rightarrow> passwd \<Rightarrow> bool" where
  "hidden_entry env entry =
     (pw_uid entry < minimum_uid_of env
      \<or> (case pw_shell entry of
            None \<Rightarrow> False
          | Some shell \<Rightarrow> list_ex (\<lambda>h. strcmp shell h = 0) (hidden_shells_of env))
      \<or> list_ex (\<lambda>h. strcmp (pw_name entry) h = 0) (hidden_users_of env))"

definition visible_entries :: "environment \<Rightarrow> passwd list" where
  "visible_entries env = filter (\<lambda>entry. \<not> hidden_entry env entry) (passwd_entries env)"

text \<open>The user object that \<^verbatim>\<open>load_users\<close> creates for an entry.\<close>

definition entry_user :: "environment \<Rightarrow> passwd \<Rightarrow> LdmUser" where
  "entry_user env entry =
     \<lparr>user_name = pw_name entry,
      user_real_name =
        (case g_strsplit (pw_gecos entry) 0x2C of
           [] \<Rightarrow> None
         | t # ts \<Rightarrow> if t \<noteq> [] then Some t else None),
      user_home_directory = pw_dir entry,
      user_image =
        (if g_file_test_exists env (g_build_filename env (pw_dir entry) (bytes ''.face''))
         then g_filename_to_uri env (g_build_filename env (pw_dir entry) (bytes ''.face''))
         else if g_file_test_exists env
                   (g_build_filename env (pw_dir entry) (bytes ''.face.icon''))
         then g_filename_to_uri env
                (g_build_filename env (pw_dir entry) (bytes ''.face.icon''))
         else None),
      user_logged_in = False\<rparr>"

text \<open>Every user of the list is an allocated object.\<close>

definition users_allocated :: "LdmGreeterPrivate \<Rightarrow> bool" where
  "users_allocated greeter = list_all (\<lambda>user. user < user_count greeter) (users greeter)"

text \<open>The user of the cached list that \<^verbatim>\<open>load_users\<close> finds for an entry, by its name.\<close>

definition cached_user :: "LdmGreeterPrivate \<Rightarrow> passwd \<Rightarrow> nat option" where
  "cached_user greeter entry = find_user greeter (users greeter) (pw_name entry)"

text \<open>
  The heap during the loop of \<^verbatim>\<open>load_users\<close>, started on the greeter \<open>g0\<close>, after the visible
  entries \<open>vs\<close>: only the heap and the allocation counter of the greeter have changed; the
  \<open>k\<close>-th entry has its new object at the \<open>k\<close>-th new address; an object of the cached list
  holds the fields of the entry that it was found for, and is untouched if there was none.
\<close>

definition load_heap :: "environment \<Rightarrow> LdmGreeterPrivate \<Rightarrow> passwd list \<Rightarrow> load_state \<Rightarrow> bool" where
  "load_heap env g0 vs st =
     (ls_greeter st = g0\<lparr>user_heap := user_heap (ls_greeter st),
                          user_count := user_count g0 + length vs\<rparr>
      \<and> (\<forall>k < length vs.
            user_heap (ls_greeter st) (user_count g0 + k) = entry_user env (vs ! k))
      \<and> (\<forall>p < user_count g0.
            (\<forall>e \<in> set vs. cached_user g0 e = Some p
               \<longrightarrow> user_heap (ls_greeter st) p = entry_user env e)
            \<and> ((\<forall>e \<in> set vs. cached_user g0 e \<noteq> Some p)
               \<longrightarrow> user_heap (ls_greeter st) p = user_heap g0 p)))"

text \<open>
  The three lists of the loop after the visible entries \<open>vs\<close>: the new list of users holds
  the cached users that were found for an entry and the new objects of the entries for
  which none was found; these new objects are the added users (once the list of users was
  loaded before); the changed users are the cached users whose fields differed from those
  of their entry.
\<close>

definition load_lists :: "environment \<Rightarrow> LdmGreeterPrivate \<Rightarrow> passwd list \<Rightarrow> load_state \<Rightarrow> bool" where
  "load_lists env g0 vs st =
     (distinct (ls_users st)
      \<and> set (ls_users st)
          = {p. \<exists>e \<in> set vs. cached_user g0 e = Some p}
            \<union> {user_count g0 + k | k. k < length vs \<and> cached_user g0 (vs ! k) = None}
      \<and> distinct (ls_new_users st)
      \<and> set (ls_new_users st)
          = (if have_users g0
             then {user_count g0 + k | k. k < length vs \<and> cached_user g0 (vs ! k) = None}
             else {})
      \<and> distinct (ls_changed_users st)
      \<and> set (ls_changed_users st)
          = {p. \<exists>e \<in> set vs. cached_user g0 e = Some p
                  \<and> user_heap g0 p \<noteq> entry_user env e})"

text \<open>The lists of added and of changed users are in the order of \<^verbatim>\<open>compare_user\<close>.\<close>

definition load_sorted :: "load_state \<Rightarrow> bool" where
  "load_sorted st =
     (sorted_wrt (\<lambda>a b. compare_user (ls_greeter st) a b \<le> 0) (ls_new_users st)
      \<and> sorted_wrt (\<lambda>a b. compare_user (ls_greeter st) a b \<le> 0) (ls_changed_users st))"


text \<open>What holds in the loop of \<^verbatim>\<open>load_users\<close> after the visible entries \<open>vs\<close>.\<close>

definition load_invariant ::
  "environment \<Rightarrow> LdmGreeterPrivate \<Rightarrow> passwd list \<Rightarrow> load_state \<Rightarrow> bool" where
  "load_invariant env g0 vs st =
     (load_heap env g0 vs st \<and> load_lists env g0 vs st \<and> load_sorted st)"

text \<open>
  Concrete password databases: an account with a login shell, and an environment with
  the default configuration, no avatar files and the usual GLib file name functions.
\<close>

definition account :: "string \<Rightarrow> nat \<Rightarrow> string \<Rightarrow> string \<Rightarrow> passwd" where
  "account nm uid gecos dir =
     \<lparr>pw_name = bytes nm, pw_uid = word_of_nat uid, pw_shell = Some (bytes ''/bin/sh''),
      pw_gecos = bytes gecos, pw_dir = bytes dir\<rparr>"

definition accounts :: "passwd list \<Rightarrow> environment" where
  "accounts entries =
     \<lparr>conf_minimum_uid = None, conf_hidden_users = None, conf_hidden_shells = None,
      passwd_entries = entries,
      g_file_test_exists = (\<lambda>path. False),
      g_build_filename = (\<lambda>dir file. dir @ [0x2F] @ file),
      g_filename_to_uri = (\<lambda>path. Some (bytes ''file://'' @ path))\<rparr>"

text \<open>The signals of a run, without the states they were emitted in.\<close>

definition signals_of :: "LdmGreeterPrivate \<times> event list \<Rightarrow> signal list" where
  "signals_of r = map fst (snd r)"

text \<open>
  A baseline of three accounts; then the home directory of \<^verbatim>\<open>alice\<close> has changed, \<^verbatim>\<open>bob\<close> was
  removed and \<^verbatim>\<open>dave\<close> was added.
\<close>

definition baseline :: "passwd list" where
  "baseline = [account ''alice'' 1000 ''Alice'' ''/home/alice'',
               account ''bob'' 1001 ''Bob'' ''/home/bob'',
               account ''carol'' 1002 ''Carol'' ''/home/carol'']"

definition reloaded :: "passwd list" where
  "reloaded = [account ''alice'' 1000 ''Alice'' ''/srv/alice'',
               account ''carol'' 1002 ''Carol'' ''/home/carol'',
               account ''dave'' 1003 ''Dave'' ''/home/dave'']"

definition baseline_loaded :: LdmGreeterPrivate where
  "baseline_loaded = fst (update_users (accounts baseline) ldm_greeter_init)"




text \<open>
  The order that C5 states for the three signals of the reload: one USER_CHANGED, then
  one USER_ADDED, then one USER_REMOVED.
\<close>

fun changed_added_removed :: "signal list \<Rightarrow> bool" where
  "changed_added_removed [USER_CHANGED a, USER_ADDED b, USER_REMOVED c] = True"
| "changed_added_removed signals = False"

section \<open>Properties\<close>

subsection \<open>Decoding\<close>

lemma read_int_short:
  "n_read greeter - offset < 4 \<Longrightarrow> read_int greeter offset = Some (0, offset)"
  by (simp add: read_int_def int_length_def)

lemma buffer_byte_Some:
  assumes "buffer_ok greeter" "unat i < unat (n_read greeter)"
  shows "buffer_byte greeter i = Some (read_buffer greeter ! unat i)"
  using assms by (simp add: buffer_byte_def buffer_ok_def)

lemma offset_plus:
  fixes offset n :: gsize
  assumes "offset \<le> n" "\<not> n - offset < 4" "k < 4"
  shows "unat (offset + k) = unat offset + unat k" "unat offset + unat k < unat n"
  using assms by unat_arith+

lemma read_int_full:
  assumes "buffer_ok greeter" "offset \<le> n_read greeter" "\<not> n_read greeter - offset < 4"
  shows "read_int greeter offset =
    Some (push_bit 24 (ucast (read_buffer greeter ! unat offset))
          OR push_bit 16 (ucast (read_buffer greeter ! (unat offset + 1)))
          OR push_bit 8 (ucast (read_buffer greeter ! (unat offset + 2)))
          OR ucast (read_buffer greeter ! (unat offset + 3)), offset + 4)"
proof -
  have b: "buffer_byte greeter (offset + k) = Some (read_buffer greeter ! (unat offset + unat k))"
    if "k < 4" for k
    using offset_plus [OF assms(2,3) that] buffer_byte_Some [OF assms(1), of "offset + k"]
    by simp
  from b [of 0] b [of 1] b [of 2] b [of 3] assms(3) show ?thesis
    by (simp add: read_int_def int_length_def)
qed

lemma offset_advance:
  fixes offset n :: gsize
  assumes "offset \<le> n" "\<not> n - offset < k"
  shows "offset + k \<le> n" "offset \<le> offset + k" "unat (offset + k) = unat offset + unat k"
  using assms by unat_arith+

lemma read_int_defined:
  assumes "buffer_ok greeter" "offset \<le> n_read greeter"
  shows "\<exists>v offset1. read_int greeter offset = Some (v, offset1)
           \<and> offset \<le> offset1 \<and> offset1 \<le> n_read greeter"
proof (cases "n_read greeter - offset < 4")
  case True
  with assms show ?thesis by (simp add: read_int_short)
next
  case False
  with assms offset_advance [OF assms(2) False] show ?thesis
    by (simp add: read_int_full)
qed

lemma read_int_range:
  assumes "buffer_ok greeter" "offset \<le> n_read greeter"
    "read_int greeter offset = Some (v, offset1)"
  shows "offset \<le> offset1" "offset1 \<le> n_read greeter"
  using read_int_defined [OF assms(1,2)] assms(3) by auto

lemma memcpy_from_defined:
  assumes "buffer_ok greeter" "offset \<le> n_read greeter" "\<not> n_read greeter - offset < ucast len"
  shows "memcpy_from greeter offset len
           = Some (take (unat len) (drop (unat offset) (read_buffer greeter)))"
proof -
  have "unat (ucast len :: gsize) = unat len"
    by (simp add: unsigned_ucast_eq take_bit_nat_eq_self unsigned_less [THEN less_trans])
  with offset_advance [OF assms(2,3)]
  have "unat offset + unat len \<le> unat (n_read greeter)"
    by (simp add: word_le_nat_alt)
  with assms(1) show ?thesis by (simp add: memcpy_from_def buffer_ok_def)
qed

lemma read_string_short:
  assumes "read_int greeter offset = Some (len, offset1)" "n_read greeter - offset1 < ucast len"
  shows "read_string greeter offset = Some ([], offset1)"
  using assms by (simp add: read_string_def)

lemma read_string_defined:
  assumes "buffer_ok greeter" "offset \<le> n_read greeter"
    "read_int greeter offset = Some (len, offset1)" "len + 1 \<noteq> 0"
  shows "\<exists>s offset2. read_string greeter offset = Some (s, offset2)
           \<and> offset \<le> offset2 \<and> offset2 \<le> n_read greeter"
proof (cases "n_read greeter - offset1 < ucast len")
  case True
  with assms read_int_range [OF assms(1-3)] show ?thesis
    by (simp add: read_string_def)
next
  case False
  note r = read_int_range [OF assms(1-3)]
  from offset_advance [OF r(2) False] r(1) have "offset \<le> offset1 + ucast len"
    by simp
  with False assms(3,4) memcpy_from_defined [OF assms(1) r(2) False]
    offset_advance(1) [OF r(2) False]
  show ?thesis
    by (simp add: read_string_def)
qed

text \<open>
  C8. For every buffer content and every read offset:
  \<^item> \<^verbatim>\<open>read_int\<close> with fewer than four bytes left (\<open>n_read - offset\<close>, in the arithmetic of the
    source) returns 0 and leaves the offset;
  \<^item> \<^verbatim>\<open>read_string\<close> whose length prefix \<open>v\<close> exceeds the bytes left after the prefix returns
    the empty string.
  Both are ordinary results, after which decoding goes on. Moreover, when the read buffer
  holds the bytes received and the offset lies within them, \<^verbatim>\<open>read_int\<close> always returns a
  value and an offset within the bytes received, and so does \<^verbatim>\<open>read_string\<close> for every
  length prefix other than \<open>0xFFFFFFFF\<close>: a result of the form \<open>Some _\<close> means that no byte
  outside the bytes received was read, since such a read is \<open>None\<close> in the model.
\<close>

theorem decoding_fails_closed:
  "(n_read greeter - offset < 4 \<longrightarrow> read_int greeter offset = Some (0, offset))
   \<and> (\<forall>v offset1. read_int greeter offset = Some (v, offset1)
          \<and> n_read greeter - offset1 < ucast v
        \<longrightarrow> read_string greeter offset = Some ([], offset1))
   \<and> (buffer_ok greeter \<and> offset \<le> n_read greeter
        \<longrightarrow> (\<exists>v offset1. read_int greeter offset = Some (v, offset1)
              \<and> offset1 \<le> n_read greeter
              \<and> (v \<noteq> 0xFFFFFFFF
                   \<longrightarrow> (\<exists>s offset2. read_string greeter offset = Some (s, offset2)
                          \<and> offset2 \<le> n_read greeter))))"
proof (intro conjI allI impI)
  show "read_int greeter offset = Some (0, offset)" if "n_read greeter - offset < 4"
    using that by (rule read_int_short)
  show "read_string greeter offset = Some ([], offset1)"
    if "read_int greeter offset = Some (v, offset1) \<and> n_read greeter - offset1 < ucast v"
    for v offset1
    using that by (simp add: read_string_short)
  show "\<exists>v offset1. read_int greeter offset = Some (v, offset1)
      \<and> offset1 \<le> n_read greeter
      \<and> (v \<noteq> 0xFFFFFFFF
           \<longrightarrow> (\<exists>s offset2. read_string greeter offset = Some (s, offset2)
                  \<and> offset2 \<le> n_read greeter))"
    if ok: "buffer_ok greeter \<and> offset \<le> n_read greeter"
  proof -
    from ok have assms: "buffer_ok greeter" "offset \<le> n_read greeter"
      by simp_all
    from read_int_defined [OF assms] obtain v offset1
      where r: "read_int greeter offset = Some (v, offset1)" "offset1 \<le> n_read greeter"
      by blast
    have "v + 1 \<noteq> 0" if "v \<noteq> 0xFFFFFFFF"
    proof
      assume "v + 1 = 0"
      then have "v = - 1" by (simp add: add_eq_0_iff2)
      with that show False by simp
    qed
    with read_string_defined [OF assms r(1)] r show ?thesis
      by auto
  qed
qed

lemma short_packet_simps:
  "n_read short_packet = 6" "read_buffer short_packet = [0, 0, 0, 5, 1, 2]"
  by (simp_all add: short_packet_def packet_read_def)

theorem decoding_fails_closed_witness:
  "buffer_ok short_packet \<and> 4 \<le> n_read short_packet \<and> n_read short_packet - 4 < 4
   \<and> read_int short_packet 4 = Some (0, 4)
   \<and> read_int short_packet 0 = Some (5, 4)
   \<and> n_read short_packet - 4 < ucast (5 :: guint32)
   \<and> read_string short_packet 0 = Some ([], 4)"
proof -
  have ok: "buffer_ok short_packet" and le: "4 \<le> n_read short_packet" "0 \<le> n_read short_packet"
    by (simp_all add: buffer_ok_def short_packet_simps)
  have r: "read_int short_packet 0 = Some (5, 4)"
    by (simp add: read_int_def int_length_def buffer_byte_def short_packet_simps)
  from decoding_fails_closed [of short_packet 4] decoding_fails_closed [of short_packet 0]
    ok le r
  show ?thesis
    by (simp add: short_packet_simps)
qed

subsection \<open>Encoding\<close>

lemma take_four_updates:
  assumes "n + 4 \<le> length b"
  shows "take (n + 4) (b[n := x0, n + 1 := x1, n + 2 := x2, n + 3 := x3])
           = take n b @ [x0, x1, x2, x3]"
proof -
  let ?c = "b[n := x0, n + 1 := x1, n + 2 := x2, n + 3 := x3]"
  have "take (n + 4) ?c = take n ?c @ [?c ! n, ?c ! (n + 1), ?c ! (n + 2), ?c ! (n + 3)]"
    using assms by (simp add: take_Suc_conv_app_nth numeral_eq_Suc)
  also have "take n ?c = take n b"
    by simp
  finally show ?thesis
    using assms by simp
qed

lemma small_offset:
  fixes offset :: gsize
  assumes "unat offset + k < 1024"
  shows "unat (offset + word_of_nat k) = unat offset + k"
  using assms by (simp add: unat_word_ariths unat_of_nat)

lemma write_int_fits:
  assumes "length buffer = 1024" "unat offset + 4 < 1024"
  shows "\<exists>b. write_int buffer MAX_MESSAGE_LENGTH v offset = Some (b, offset + 4)
           \<and> length b = 1024
           \<and> take (unat offset + 4) b = take (unat offset) buffer @ int_bytes v"
proof -
  have u: "unat (offset + 1) = unat offset + 1" "unat (offset + 2) = unat offset + 2"
    "unat (offset + 3) = unat offset + 3" "unat (offset + 4) = unat offset + 4"
    using small_offset [of offset 1] small_offset [of offset 2] small_offset [of offset 3]
      small_offset [of offset 4] assms(2)
    by simp_all
  have g: "\<not> (scast MAX_MESSAGE_LENGTH :: gsize) \<le> offset + 4"
    using u(4) assms(2) by (simp add: MAX_MESSAGE_LENGTH_def word_le_nat_alt)
  show ?thesis
    using assms g u take_four_updates [of "unat offset" buffer]
    by (simp add: write_int_def store_byte_def int_bytes_def)
qed

lemma write_int_full:
  assumes "\<not> unat offset + 4 < 1024" "unat offset \<le> 1024"
  shows "write_int buffer MAX_MESSAGE_LENGTH v offset = Some (buffer, offset)"
proof -
  have "unat (offset + 4) = unat offset + 4"
    using assms(2) by (simp add: unat_word_ariths)
  then have "(scast MAX_MESSAGE_LENGTH :: gsize) \<le> offset + 4"
    using assms(1) by (simp add: MAX_MESSAGE_LENGTH_def word_le_nat_alt)
  then show ?thesis by (simp add: write_int_def)
qed

lemma scast_length:
  assumes "n < 2 ^ 31"
  shows "(scast (word_of_nat n :: gint) :: gsize) = word_of_nat n"
proof -
  have "sint (word_of_nat n :: gint) = int n"
    using assms by (simp add: signed_of_nat signed_take_bit_int_eq_self)
  then show ?thesis
    by (simp add: scast_eq)
qed

lemma write_string_fits:
  assumes "length buffer = 1024" "unat offset + 4 + length s < 1024"
  shows "\<exists>b. write_string buffer MAX_MESSAGE_LENGTH s offset
                = Some (b, offset + 4 + word_of_nat (length s))
           \<and> length b = 1024
           \<and> take (unat offset + 4 + length s) b
               = take (unat offset) buffer @ int_bytes (word_of_nat (length s)) @ s"
proof -
  from assms have fits: "unat offset + 4 < 1024"
    by simp
  from write_int_fits [OF assms(1) fits] obtain b1
    where w: "write_int buffer MAX_MESSAGE_LENGTH (word_of_nat (length s)) offset
                = Some (b1 , offset + 4)"
      and l: "length b1 = 1024"
      and t: "take (unat offset + 4) b1
                = take (unat offset) buffer @ int_bytes (word_of_nat (length s))"
    by blast
  have sc: "(scast (word_of_nat (length s) :: gint) :: gsize) = word_of_nat (length s)"
    using assms(2) by (intro scast_length) simp
  have u4: "unat (offset + 4) = unat offset + 4"
    using small_offset [of offset 4] fits by simp
  have un: "unat (word_of_nat (length s) :: gsize) = length s"
    using assms(2) by (simp add: unat_of_nat)
  have ul: "unat (offset + 4 + word_of_nat (length s)) = unat offset + 4 + length s"
    using assms(2) small_offset [of "offset + 4" "length s"] u4 by simp
  have g: "\<not> (scast MAX_MESSAGE_LENGTH :: gsize) \<le> offset + 4 + word_of_nat (length s)"
    using ul assms(2) by (simp add: MAX_MESSAGE_LENGTH_def word_le_nat_alt)
  have m: "memcpy_to b1 (offset + 4) s (word_of_nat (length s))
             = Some (take (unat offset + 4) b1 @ s @ drop (unat offset + 4 + length s) b1)"
    using assms(2) l by (simp add: memcpy_to_def u4 un)
  let ?b2 = "take (unat offset + 4) b1 @ s @ drop (unat offset + 4 + length s) b1"
  have l2: "length ?b2 = 1024"
    using l assms(2) by simp
  have "take (unat offset + 4 + length s) ?b2 = take (unat offset + 4) b1 @ s"
    using l assms(2) by simp
  with t have t2: "take (unat offset + 4 + length s) ?b2
      = take (unat offset) buffer @ int_bytes (word_of_nat (length s)) @ s"
    by simp
  have "write_string buffer MAX_MESSAGE_LENGTH s offset
          = Some (?b2, offset + 4 + word_of_nat (length s))"
    using w sc g m by (simp add: write_string_def Let_def)
  with l2 t2 show ?thesis
    by blast
qed

lemma write_string_dropped:
  assumes "length buffer = 1024" "unat offset + 4 < 1024"
    "1024 \<le> unat offset + 4 + length s" "length s < 2 ^ 31"
  shows "\<exists>b. write_string buffer MAX_MESSAGE_LENGTH s offset = Some (b, offset + 4)
           \<and> length b = 1024
           \<and> take (unat offset + 4) b
               = take (unat offset) buffer @ int_bytes (word_of_nat (length s))"
proof -
  from write_int_fits [OF assms(1,2)] obtain b1
    where w: "write_int buffer MAX_MESSAGE_LENGTH (word_of_nat (length s)) offset
                = Some (b1 , offset + 4)"
      and l: "length b1 = 1024"
      and t: "take (unat offset + 4) b1
                = take (unat offset) buffer @ int_bytes (word_of_nat (length s))"
    by blast
  have sc: "(scast (word_of_nat (length s) :: gint) :: gsize) = word_of_nat (length s)"
    using assms(4) by (rule scast_length)
  have u4: "unat (offset + 4) = unat offset + 4"
    using small_offset [of offset 4] assms(2) by simp
  have un: "unat (word_of_nat (length s) :: gsize) = length s"
    using assms(4) by (simp add: unat_of_nat)
  have "unat (offset + 4 + word_of_nat (length s)) = unat offset + 4 + length s"
    using assms(2,4) u4 un by (simp add: unat_word_ariths)
  then have g: "(scast MAX_MESSAGE_LENGTH :: gsize) \<le> offset + 4 + word_of_nat (length s)"
    using assms(3) by (simp add: MAX_MESSAGE_LENGTH_def word_le_nat_alt)
  have "write_string buffer MAX_MESSAGE_LENGTH s offset = Some (b1, offset + 4)"
    using w sc g by (simp add: write_string_def Let_def)
  with l t show ?thesis
    by blast
qed

lemma write_header_fits:
  assumes "length buffer = 1024" "unat offset + 8 < 1024"
  shows "\<exists>b. write_header buffer MAX_MESSAGE_LENGTH ident len offset = Some (b, offset + 8)
           \<and> length b = 1024
           \<and> take (unat offset + 8) b
               = take (unat offset) buffer @ int_bytes ident @ int_bytes len"
proof -
  from assms have f1: "unat offset + 4 < 1024"
    by simp
  from write_int_fits [OF assms(1) f1] obtain b1
    where w1: "write_int buffer MAX_MESSAGE_LENGTH ident offset = Some (b1 , offset + 4)"
      and l1: "length b1 = 1024"
      and t1: "take (unat offset + 4) b1 = take (unat offset) buffer @ int_bytes ident"
    by blast
  have u4: "unat (offset + 4) = unat offset + 4"
    using small_offset [of offset 4] f1 by simp
  with assms have f2: "unat (offset + 4) + 4 < 1024"
    by simp
  from write_int_fits [OF l1 f2] obtain b2
    where w2: "write_int b1 MAX_MESSAGE_LENGTH len (offset + 4) = Some (b2 , offset + 4 + 4)"
      and l2: "length b2 = 1024"
      and t2: "take (unat (offset + 4) + 4) b2 = take (unat (offset + 4)) b1 @ int_bytes len"
    by blast
  have "write_header buffer MAX_MESSAGE_LENGTH ident len offset = Some (b2, offset + 8)"
    using w1 w2 by (simp add: write_header_def)
  moreover have "take (unat offset + 8) b2
      = take (unat offset) buffer @ int_bytes ident @ int_bytes len"
    using t1 t2 u4 by (simp add: add.assoc)
  ultimately show ?thesis
    using l2 by blast
qed

lemma ldm_greeter_login_fits:
  assumes "length u < 1008" "u = (case username of None \<Rightarrow> [] | Some v \<Rightarrow> v)"
  shows "ldm_greeter_login greeter username =
    Some (greeter\<lparr>cancelling_authentication := False,
            authenticate_sequence_number := authenticate_sequence_number greeter + 1,
            in_authentication := True, is_authenticated := False,
            authentication_user := Some u,
            to_server_channel := to_server_channel greeter
              @ [login_message (authenticate_sequence_number greeter + 1) u]\<rparr>)"
proof -
  let ?n = "authenticate_sequence_number greeter + 1"
  have l0: "length message_array = 1024"
    by (simp add: message_array_def)
  from write_header_fits [OF l0, of 0] obtain b1
    where w1: "write_header message_array MAX_MESSAGE_LENGTH GREETER_MESSAGE_LOGIN
                 (int_length + string_length u) 0 = Some (b1, 8)"
      and l1: "length b1 = 1024"
      and t1: "take 8 b1 = int_bytes GREETER_MESSAGE_LOGIN
                 @ int_bytes (int_length + string_length u)"
    by fastforce
  from write_int_fits [OF l1, of 8] obtain b2
    where w2: "write_int b1 MAX_MESSAGE_LENGTH ?n 8 = Some (b2, 12)"
      and l2: "length b2 = 1024"
      and t2: "take 12 b2 = take 8 b1 @ int_bytes ?n"
    by fastforce
  from write_string_fits [OF l2, of 12 u] assms(1) obtain b3
    where w3: "write_string b2 MAX_MESSAGE_LENGTH u 12 = Some (b3, 16 + word_of_nat (length u))"
      and l3: "length b3 = 1024"
      and t3: "take (16 + length u) b3 = take 12 b2 @ int_bytes (word_of_nat (length u)) @ u"
    by fastforce
  have un: "unat (16 + word_of_nat (length u) :: gsize) = 16 + length u"
    using assms(1) small_offset [of 16 "length u"] by simp
  show ?thesis
    using w1 w2 w3 t1 t2 t3 un assms(2)
    by (simp add: ldm_greeter_login_def write_message_def login_message_def Let_def)
qed

lemma mask_255: "(0xFF :: guint32) = mask 8"
  by (simp add: mask_eq_exp_minus_1)

lemma int_bytes_roundtrip:
  fixes v :: guint32
  shows "push_bit 24 (ucast (ucast (drop_bit 24 v) :: guint8))
           OR push_bit 16 (ucast (ucast (drop_bit 16 v AND 0xFF) :: guint8))
           OR push_bit 8 (ucast (ucast (drop_bit 8 v AND 0xFF) :: guint8))
           OR ucast (ucast (v AND 0xFF) :: guint8) = v"
proof (rule bit_word_eqI)
  fix n :: nat
  assume "n < LENGTH(32)"
  then have "n < 32" by simp
  then consider "n < 8" | "8 \<le> n" "n < 16" | "16 \<le> n" "n < 24" | "24 \<le> n" "n < 32"
    by linarith
  then show "bit (push_bit 24 (ucast (ucast (drop_bit 24 v) :: guint8))
           OR push_bit 16 (ucast (ucast (drop_bit 16 v AND 0xFF) :: guint8))
           OR push_bit 8 (ucast (ucast (drop_bit 8 v AND 0xFF) :: guint8))
           OR (ucast (ucast (v AND 0xFF) :: guint8) :: guint32)) n = bit v n"
    unfolding mask_255 by cases (auto simp: bit_simps)
qed

lemma ldm_greeter_login_dropped:
  assumes "1008 \<le> length u" "length u < 2 ^ 31"
  shows "ldm_greeter_login greeter (Some u) =
    Some (greeter\<lparr>cancelling_authentication := False,
            authenticate_sequence_number := authenticate_sequence_number greeter + 1,
            in_authentication := True, is_authenticated := False,
            authentication_user := Some u,
            to_server_channel := to_server_channel greeter
              @ [int_bytes GREETER_MESSAGE_LOGIN @ int_bytes (int_length + string_length u)
                 @ int_bytes (authenticate_sequence_number greeter + 1)
                 @ int_bytes (word_of_nat (length u))]\<rparr>)"
proof -
  let ?n = "authenticate_sequence_number greeter + 1"
  have l0: "length message_array = 1024"
    by (simp add: message_array_def)
  from write_header_fits [OF l0, of 0] obtain b1
    where w1: "write_header message_array MAX_MESSAGE_LENGTH GREETER_MESSAGE_LOGIN
                 (int_length + string_length u) 0 = Some (b1, 8)"
      and l1: "length b1 = 1024"
      and t1: "take 8 b1 = int_bytes GREETER_MESSAGE_LOGIN
                 @ int_bytes (int_length + string_length u)"
    by fastforce
  from write_int_fits [OF l1, of 8] obtain b2
    where w2: "write_int b1 MAX_MESSAGE_LENGTH ?n 8 = Some (b2, 12)"
      and l2: "length b2 = 1024"
      and t2: "take 12 b2 = take 8 b1 @ int_bytes ?n"
    by fastforce
  from write_string_dropped [OF l2, of 12 u] assms obtain b3
    where w3: "write_string b2 MAX_MESSAGE_LENGTH u 12 = Some (b3, 16)"
      and l3: "length b3 = 1024"
      and t3: "take 16 b3 = take 12 b2 @ int_bytes (word_of_nat (length u))"
    by fastforce
  show ?thesis
    using w1 w2 w3 t1 t2 t3
    by (simp add: ldm_greeter_login_def write_message_def Let_def)
qed

lemma ldm_greeter_login_as_guest_eq:
  "ldm_greeter_login_as_guest greeter =
    Some (greeter\<lparr>cancelling_authentication := False,
            authenticate_sequence_number := authenticate_sequence_number greeter + 1,
            in_authentication := True, is_authenticated := False,
            authentication_user := None,
            to_server_channel := to_server_channel greeter
              @ [guest_message (authenticate_sequence_number greeter + 1)]\<rparr>)"
proof -
  let ?n = "authenticate_sequence_number greeter + 1"
  have l0: "length message_array = 1024"
    by (simp add: message_array_def)
  from write_header_fits [OF l0, of 0] obtain b1
    where w1: "write_header message_array MAX_MESSAGE_LENGTH GREETER_MESSAGE_LOGIN_AS_GUEST
                 int_length 0 = Some (b1, 8)"
      and l1: "length b1 = 1024"
      and t1: "take 8 b1 = int_bytes GREETER_MESSAGE_LOGIN_AS_GUEST @ int_bytes int_length"
    by fastforce
  from write_int_fits [OF l1, of 8] obtain b2
    where w2: "write_int b1 MAX_MESSAGE_LENGTH ?n 8 = Some (b2, 12)"
      and l2: "length b2 = 1024"
      and t2: "take 12 b2 = take 8 b1 @ int_bytes ?n"
    by fastforce
  show ?thesis
    using w1 w2 t1 t2
    by (simp add: ldm_greeter_login_as_guest_def write_message_def guest_message_def Let_def)
qed

lemma ldm_greeter_cancel_authentication_eq:
  "ldm_greeter_cancel_authentication greeter =
    Some (greeter\<lparr>cancelling_authentication := True,
            to_server_channel := to_server_channel greeter
              @ [int_bytes GREETER_MESSAGE_CANCEL_AUTHENTICATION @ int_bytes 0]\<rparr>)"
proof -
  have l0: "length message_array = 1024"
    by (simp add: message_array_def)
  from write_header_fits [OF l0, of 0] obtain b1
    where w1: "write_header message_array MAX_MESSAGE_LENGTH
                 GREETER_MESSAGE_CANCEL_AUTHENTICATION 0 0 = Some (b1, 8)"
      and t1: "take 8 b1 = int_bytes GREETER_MESSAGE_CANCEL_AUTHENTICATION @ int_bytes 0"
    by fastforce
  show ?thesis
    using w1 t1
    by (simp add: ldm_greeter_cancel_authentication_def write_message_def Let_def)
qed

lemma length_int_bytes [simp]: "length (int_bytes v) = 4"
  by (simp add: int_bytes_def)

lemma read_int_of_int_bytes:
  assumes "buffer_ok greeter" "unat offset + 4 \<le> unat (n_read greeter)"
    "take 4 (drop (unat offset) (read_buffer greeter)) = int_bytes v"
  shows "read_int greeter offset = Some (v, offset + 4)"
proof -
  have le: "offset \<le> n_read greeter" and ge: "\<not> n_read greeter - offset < 4"
    using assms(2) by unat_arith+
  from assms(1,2) have len: "unat offset + 4 \<le> length (read_buffer greeter)"
    by (simp add: buffer_ok_def)
  have "int_bytes v ! k = read_buffer greeter ! (unat offset + k)" if "k < 4" for k
    using that len by (simp flip: assms(3))
  from this [of 0] this [of 1] this [of 2] this [of 3]
  have "read_buffer greeter ! unat offset = ucast (drop_bit 24 v)"
    "read_buffer greeter ! (unat offset + 1) = ucast (drop_bit 16 v AND 0xFF)"
    "read_buffer greeter ! (unat offset + 2) = ucast (drop_bit 8 v AND 0xFF)"
    "read_buffer greeter ! (unat offset + 3) = ucast (v AND 0xFF)"
    by (simp_all add: int_bytes_def)
  then show ?thesis
    using read_int_full [OF assms(1) le ge] int_bytes_roundtrip [of v] by simp
qed

lemma c_str_no_nul: "0 \<notin> set u \<Longrightarrow> c_str u = u"
  by (simp add: c_str_def takeWhile_eq_all_conv) metis

lemma read_string_of_bytes:
  assumes "buffer_ok greeter" "unat offset + 4 + length u \<le> unat (n_read greeter)"
    "take 4 (drop (unat offset) (read_buffer greeter)) = int_bytes (word_of_nat (length u))"
    "take (length u) (drop (unat offset + 4) (read_buffer greeter)) = u"
    "length u < 2 ^ 31" "0 \<notin> set u"
  shows "read_string greeter offset = Some (u, offset + 4 + word_of_nat (length u))"
proof -
  let ?len = "word_of_nat (length u) :: guint32"
  from assms(2) have f: "unat offset + 4 \<le> unat (n_read greeter)"
    by simp
  note r = read_int_of_int_bytes [OF assms(1) f assms(3)]
  have ul: "unat ?len = length u"
    using assms(5) by (simp add: unat_of_nat)
  have uc: "(ucast ?len :: gsize) = word_of_nat (length u)"
    using of_nat_unat [of ?len, where ?'a = gsize] ul by simp
  have u4: "unat (offset + 4) = unat offset + 4"
    using f by unat_arith
  have un: "unat (word_of_nat (length u) :: gsize) = length u"
    using assms(5) by (simp add: unat_of_nat)
  have le: "offset + 4 \<le> n_read greeter"
    using f u4 by (simp add: word_le_nat_alt)
  have ge: "\<not> n_read greeter - (offset + 4) < word_of_nat (length u)"
    using assms(2) u4 un le by unat_arith
  have nz: "?len + 1 \<noteq> 0"
  proof
    assume "?len + 1 = 0"
    then have "?len = - 1" by (simp add: add_eq_0_iff2)
    then have "unat ?len = unat (- 1 :: guint32)" by simp
    with ul assms(5) show False by (simp add: unsigned_minus_1_eq_mask mask_eq_exp_minus_1)
  qed
  have "memcpy_from greeter (offset + 4) ?len = Some u"
    using memcpy_from_defined [OF assms(1) le, of ?len] ge uc ul u4 assms(4) by simp
  with r ge nz uc assms(6) show ?thesis
    by (simp add: read_string_def c_str_no_nul)
qed

subsection \<open>The authentication session\<close>

lemma alice_simps: "alice = [0x61, 0x6C, 0x69, 0x63, 0x65]" "length alice = 5" "0 \<notin> set alice"
  by (simp_all add: alice_def bytes_def)

lemma authenticating_eq:
  "authenticating = ldm_greeter_init\<lparr>cancelling_authentication := False,
            authenticate_sequence_number := 1,
            in_authentication := True, is_authenticated := False,
            authentication_user := Some alice,
            to_server_channel := [login_message 1 alice]\<rparr>"
  using ldm_greeter_login_fits [of alice "Some alice" ldm_greeter_init]
  by (simp add: authenticating_def alice_simps) (simp add: ldm_greeter_init_def)

lemma cancelling_eq:
  "cancelling = authenticating\<lparr>cancelling_authentication := True,
            to_server_channel := to_server_channel authenticating
              @ [int_bytes GREETER_MESSAGE_CANCEL_AUTHENTICATION @ int_bytes 0]\<rparr>"
  by (simp add: cancelling_def ldm_greeter_cancel_authentication_eq)

lemma packet_read_simps [simp]:
  "read_buffer (packet_read greeter packet) = packet"
  "n_read (packet_read greeter packet) = word_of_nat (length packet)"
  "authenticate_sequence_number (packet_read greeter packet) = authenticate_sequence_number greeter"
  "cancelling_authentication (packet_read greeter packet) = cancelling_authentication greeter"
  "in_authentication (packet_read greeter packet) = in_authentication greeter"
  "is_authenticated (packet_read greeter packet) = is_authenticated greeter"
  "authentication_user (packet_read greeter packet) = authentication_user greeter"
  "hints (packet_read greeter packet) = hints greeter"
  by (simp_all add: packet_read_def)

lemma buffer_ok_packet_read [simp]: "buffer_ok (packet_read greeter packet)"
  by (simp add: buffer_ok_def unat_of_nat)

text \<open>
  C1. A PROMPT_AUTHENTICATION or END_AUTHENTICATION message whose sequence number (the
  integer read at the offset after the header) differs from the current
  \<open>authenticate_sequence_number\<close> is dropped: the handler returns the greeter it was given,
  so every field of the session is unchanged, and it emits no signal.
\<close>

theorem stale_sequence_number_dropped:
  assumes "buffer_ok greeter" and "offset \<le> n_read greeter"
    and "read_int greeter offset = Some (sequence_number, offset1)"
    and "sequence_number \<noteq> authenticate_sequence_number greeter"
  shows "handle_prompt_authentication greeter offset = Some (greeter, [])
    \<and> handle_end_authentication greeter offset = Some (greeter, [])"
proof -
  from read_int_range [OF assms(1-3)] have "offset1 \<le> n_read greeter"
    by simp
  from read_int_defined [OF assms(1) this] obtain return_code offset2
    where "read_int greeter offset1 = Some (return_code, offset2)"
    by blast
  with assms(3,4) show ?thesis
    by (simp add: handle_prompt_authentication_def handle_end_authentication_def)
qed

lemma end_packet_reads:
  assumes "greeter = packet_read greeter0 (end_packet n return_code)"
  shows "read_int greeter 8 = Some (n, 12)" "read_int greeter 12 = Some (return_code, 16)"
    "8 \<le> n_read greeter"
  using read_int_of_int_bytes [of greeter 8 n] read_int_of_int_bytes [of greeter 12 return_code]
  by (simp_all add: assms end_packet_def)

theorem stale_sequence_number_dropped_witness:
  "buffer_ok (packet_read authenticating (end_packet 7 0))
   \<and> 8 \<le> n_read (packet_read authenticating (end_packet 7 0))
   \<and> read_int (packet_read authenticating (end_packet 7 0)) 8 = Some (7, 12)
   \<and> authenticate_sequence_number (packet_read authenticating (end_packet 7 0)) = 1
   \<and> handle_prompt_authentication (packet_read authenticating (end_packet 7 0)) 8
       = Some (packet_read authenticating (end_packet 7 0), [])
   \<and> handle_end_authentication (packet_read authenticating (end_packet 7 0)) 8
       = Some (packet_read authenticating (end_packet 7 0), [])"
proof -
  let ?g = "packet_read authenticating (end_packet 7 0)"
  note r = end_packet_reads [OF refl, of authenticating 7 0]
  have s: "authenticate_sequence_number ?g = 1"
    by (simp add: authenticating_eq)
  then have "7 \<noteq> authenticate_sequence_number ?g"
    by simp
  from stale_sequence_number_dropped [OF buffer_ok_packet_read r(3) r(1) this] r s
  show ?thesis
    by simp
qed

lemma handle_end_authentication_current:
  assumes "read_int greeter offset = Some (authenticate_sequence_number greeter, offset1)"
    and "read_int greeter offset1 = Some (return_code, offset2)"
  shows "handle_end_authentication greeter offset =
    Some (greeter\<lparr>cancelling_authentication := False,
            is_authenticated := (return_code = 0),
            authentication_user :=
              (if return_code = 0 then authentication_user greeter else None),
            in_authentication := False\<rparr>,
          [(AUTHENTICATION_COMPLETE,
            greeter\<lparr>cancelling_authentication := False,
              is_authenticated := (return_code = 0),
              authentication_user :=
                (if return_code = 0 then authentication_user greeter else None)\<rparr>)])"
  using assms
  by (simp add: handle_end_authentication_def g_signal_emit_def Let_def)

text \<open>
  C2. While \<open>cancelling_authentication\<close> is set, a PROMPT_AUTHENTICATION with the current
  sequence number changes nothing and emits no signal, whereas an END_AUTHENTICATION with
  the current sequence number emits AUTHENTICATION_COMPLETE, and nothing else, and leaves
  \<open>in_authentication\<close> cleared.
\<close>

theorem cancelled_prompt_dropped_end_processed:
  assumes "buffer_ok greeter" and "offset \<le> n_read greeter"
    and "cancelling_authentication greeter"
    and "read_int greeter offset = Some (authenticate_sequence_number greeter, offset1)"
  shows "handle_prompt_authentication greeter offset = Some (greeter, [])
    \<and> (\<exists>greeter1 seen.
          handle_end_authentication greeter offset
            = Some (greeter1, [(AUTHENTICATION_COMPLETE, seen)])
          \<and> \<not> in_authentication greeter1)"
proof -
  from read_int_range [OF assms(1,2,4)] have "offset1 \<le> n_read greeter"
    by simp
  from read_int_defined [OF assms(1) this] obtain return_code offset2
    where "read_int greeter offset1 = Some (return_code, offset2)"
    by blast
  from handle_end_authentication_current [OF assms(4) this] assms(3,4) show ?thesis
    by (simp add: handle_prompt_authentication_def)
qed

theorem cancelled_prompt_dropped_end_processed_witness:
  "ldm_greeter_cancel_authentication authenticating = Some cancelling
   \<and> in_authentication cancelling \<and> cancelling_authentication cancelling
   \<and> buffer_ok (packet_read cancelling (prompt_packet 1 1 alice))
   \<and> 8 \<le> n_read (packet_read cancelling (prompt_packet 1 1 alice))
   \<and> read_int (packet_read cancelling (prompt_packet 1 1 alice)) 8 = Some (1, 12)
   \<and> authenticate_sequence_number (packet_read cancelling (prompt_packet 1 1 alice)) = 1
   \<and> handle_prompt_authentication (packet_read cancelling (prompt_packet 1 1 alice)) 8
       = Some (packet_read cancelling (prompt_packet 1 1 alice), [])"
proof -
  let ?g = "packet_read cancelling (prompt_packet 1 1 alice)"
  have c: "cancelling_authentication ?g" "in_authentication cancelling"
    and s: "authenticate_sequence_number ?g = 1"
    by (simp_all add: cancelling_eq authenticating_eq)
  have n: "8 \<le> n_read ?g"
    by (simp add: prompt_packet_def alice_simps)
  have r: "read_int ?g 8 = Some (authenticate_sequence_number ?g, 12)"
    using read_int_of_int_bytes [of ?g 8 1] s by (simp add: prompt_packet_def alice_simps)
  from cancelled_prompt_dropped_end_processed [OF buffer_ok_packet_read n c(1) r] c s r n
  show ?thesis
    by (simp add: cancelling_eq ldm_greeter_cancel_authentication_eq)
qed

text \<open>
  C3. An END_AUTHENTICATION with the current sequence number and return code
  \<open>return_code\<close> emits exactly one signal, AUTHENTICATION_COMPLETE. The state \<open>seen\<close> at the
  emission has the cancelling flag cleared, \<open>is_authenticated\<close> set to \<open>return_code = 0\<close>, the
  user name cleared unless authenticated, and \<open>in_authentication\<close> as it was before the
  message; the state after the handler is \<open>seen\<close> with \<open>in_authentication\<close> cleared.
\<close>

theorem end_authentication_order:
  assumes "buffer_ok greeter" and "offset \<le> n_read greeter"
    and "read_int greeter offset = Some (authenticate_sequence_number greeter, offset1)"
    and "read_int greeter offset1 = Some (return_code, offset2)"
  shows "\<exists>greeter1 seen.
      handle_end_authentication greeter offset
        = Some (greeter1, [(AUTHENTICATION_COMPLETE, seen)])
      \<and> seen = greeter\<lparr>cancelling_authentication := False,
                  is_authenticated := (return_code = 0),
                  authentication_user :=
                    (if return_code = 0 then authentication_user greeter else None)\<rparr>
      \<and> in_authentication seen = in_authentication greeter
      \<and> greeter1 = seen\<lparr>in_authentication := False\<rparr>"
  using handle_end_authentication_current [OF assms(3,4)] by simp

theorem end_authentication_order_witness:
  "buffer_ok (packet_read cancelling (end_packet 1 7))
   \<and> read_int (packet_read cancelling (end_packet 1 7)) 8 = Some (1, 12)
   \<and> read_int (packet_read cancelling (end_packet 1 7)) 12 = Some (7, 16)
   \<and> authenticate_sequence_number (packet_read cancelling (end_packet 1 7)) = 1
   \<and> authentication_user (packet_read cancelling (end_packet 1 7)) = Some alice
   \<and> (\<exists>greeter1 seen.
        handle_end_authentication (packet_read cancelling (end_packet 1 7)) 8
          = Some (greeter1, [(AUTHENTICATION_COMPLETE, seen)])
        \<and> in_authentication seen \<and> \<not> in_authentication greeter1
        \<and> \<not> cancelling_authentication greeter1 \<and> \<not> is_authenticated greeter1
        \<and> authentication_user greeter1 = None)"
proof -
  let ?g = "packet_read cancelling (end_packet 1 7)"
  note r = end_packet_reads [OF refl, of cancelling 1 7]
  have s: "authenticate_sequence_number ?g = 1" "in_authentication ?g"
    "authentication_user ?g = Some alice"
    by (simp_all add: cancelling_eq authenticating_eq)
  from r(1) s have r1: "read_int ?g 8 = Some (authenticate_sequence_number ?g, 12)"
    by simp
  from end_authentication_order [OF buffer_ok_packet_read r(3) r1 r(2)] r s
  show ?thesis
    by auto
qed

text \<open>
  C10. After \<^verbatim>\<open>ldm_greeter_login\<close> with a \<^verbatim>\<open>NULL\<close> user name, also through
  \<^verbatim>\<open>ldm_greeter_login_with_user_prompt\<close>, \<^verbatim>\<open>ldm_greeter_get_authentication_user\<close> returns
  the empty string; after \<^verbatim>\<open>ldm_greeter_login_as_guest\<close> it returns \<^verbatim>\<open>NULL\<close> although an
  authentication is in progress. This holds from every state, the initial one included.
\<close>

theorem authentication_user_after_login:
  "(\<exists>greeter1. ldm_greeter_login greeter None = Some greeter1
      \<and> ldm_greeter_get_authentication_user greeter1 = Some [])
   \<and> (\<exists>greeter1. ldm_greeter_login_with_user_prompt greeter = Some greeter1
      \<and> ldm_greeter_get_authentication_user greeter1 = Some [])
   \<and> (\<exists>greeter1. ldm_greeter_login_as_guest greeter = Some greeter1
      \<and> ldm_greeter_get_authentication_user greeter1 = None
      \<and> ldm_greeter_get_in_authentication greeter1)"
  using ldm_greeter_login_fits [of "[]" None greeter]
  by (simp add: ldm_greeter_login_with_user_prompt_def ldm_greeter_login_as_guest_eq
      ldm_greeter_get_authentication_user_def ldm_greeter_get_in_authentication_def)

subsection \<open>The round trip of a LOGIN message\<close>

lemma decode_login_message:
  assumes "length u < 1008" "0 \<notin> set u"
  shows "decode_login (login_message n u)
           = Some (GREETER_MESSAGE_LOGIN, int_length + string_length u, n, u)"
proof -
  let ?g = "packet_read ldm_greeter_init (login_message n u)"
  have nr: "unat (n_read ?g) = 16 + length u"
    using assms(1) small_offset [of 16 "length u"] by (simp add: login_message_def)
  have ok: "buffer_ok ?g"
    by simp
  have r1: "read_int ?g 0 = Some (GREETER_MESSAGE_LOGIN, 4)"
    using read_int_of_int_bytes [OF ok, of 0 GREETER_MESSAGE_LOGIN] nr
    by (simp add: login_message_def)
  have r2: "read_int ?g 4 = Some (int_length + string_length u, 8)"
    using read_int_of_int_bytes [OF ok, of 4 "int_length + string_length u"] nr
    by (simp add: login_message_def)
  have r3: "read_int ?g 8 = Some (n, 12)"
    using read_int_of_int_bytes [OF ok, of 8 n] nr
    by (simp add: login_message_def)
  have r4: "read_string ?g 12 = Some (u, 12 + 4 + word_of_nat (length u))"
    using assms nr by (intro read_string_of_bytes) (simp_all add: login_message_def)
  show ?thesis
    using r1 r2 r3 r4 by (simp add: decode_login_def Let_def)
qed

text \<open>
  C9, amended. For every sequence number \<open>N\<close> and every user name \<open>u\<close> of fewer than 1008
  bytes (a C string, so without a NUL byte): \<^verbatim>\<open>ldm_greeter_login\<close> with \<open>u\<close>, called when the
  counter is \<open>N - 1\<close>, writes a message that decodes to the identifier of LOGIN, the payload
  length \<open>8 + length u\<close>, the sequence number \<open>N\<close> and the user name \<open>u\<close>.
\<close>

theorem login_round_trip:
  assumes "length u < 1008" and "0 \<notin> set u"
    and "authenticate_sequence_number greeter = N - 1"
  shows "login_then_decode greeter (Some u)
           = Some (GREETER_MESSAGE_LOGIN, 8 + word_of_nat (length u), N, u)"
  using ldm_greeter_login_fits [OF assms(1), of "Some u" greeter]
    decode_login_message [OF assms(1,2), of N] assms(3)
  by (simp add: login_then_decode_def int_length_def string_length_def)

theorem login_round_trip_witness:
  "length alice < 1008 \<and> 0 \<notin> set alice
   \<and> authenticate_sequence_number ldm_greeter_init = 1 - 1
   \<and> login_then_decode ldm_greeter_init (Some alice) = Some (1, 13, 1, alice)"
proof -
  have a: "length alice < 1008" "0 \<notin> set alice"
    and s: "authenticate_sequence_number ldm_greeter_init = 1 - 1"
    by (simp_all add: alice_simps ldm_greeter_init_def)
  from login_round_trip [OF a s] a s show ?thesis
    by (simp add: GREETER_MESSAGE_LOGIN_def alice_simps)
qed

text \<open>
  C9 as stated fails for a user name of 1008 bytes: \<^verbatim>\<open>write_string\<close> writes the length
  prefix, finds that the bytes of the name do not fit the array of 1024 bytes and returns
  without them, so the message decodes to the empty user name.
\<close>

theorem login_round_trip_counterexample:
  "login_then_decode ldm_greeter_init (Some long_name)
     = Some (GREETER_MESSAGE_LOGIN, 1016, 1, [])
   \<and> long_name \<noteq> []"
proof -
  let ?m = "int_bytes GREETER_MESSAGE_LOGIN @ int_bytes (int_length + string_length long_name)
              @ int_bytes 1 @ int_bytes (word_of_nat (length long_name))"
  let ?g = "packet_read ldm_greeter_init ?m"
  have l: "length long_name = 1008"
    by (simp add: long_name_def)
  have ok: "buffer_ok ?g"
    by simp
  have r1: "read_int ?g 0 = Some (GREETER_MESSAGE_LOGIN, 4)"
    using read_int_of_int_bytes [OF ok, of 0 GREETER_MESSAGE_LOGIN] by simp
  have r2: "read_int ?g 4 = Some (int_length + string_length long_name, 8)"
    using read_int_of_int_bytes [OF ok, of 4 "int_length + string_length long_name"] by simp
  have r3: "read_int ?g 8 = Some (1, 12)"
    using read_int_of_int_bytes [OF ok, of 8 1] by simp
  have r4: "read_int ?g 12 = Some (word_of_nat (length long_name), 16)"
    using read_int_of_int_bytes [OF ok, of 12 "word_of_nat (length long_name)"] by simp
  have uc: "(ucast (1008 :: guint32) :: gsize) = 1008"
    by (simp add: ucast_eq)
  have "n_read ?g - 16 < ucast (word_of_nat (length long_name) :: guint32)"
    by (simp add: l uc)
  with r4 have "read_string ?g 12 = Some ([], 16)"
    by (rule read_string_short)
  with r1 r2 r3 have "decode_login ?m
      = Some (GREETER_MESSAGE_LOGIN, int_length + string_length long_name, 1, [])"
    by (simp add: decode_login_def Let_def)
  moreover have "ldm_greeter_login ldm_greeter_init (Some long_name)
      = Some (ldm_greeter_init\<lparr>cancelling_authentication := False,
            authenticate_sequence_number := 1,
            in_authentication := True, is_authenticated := False,
            authentication_user := Some long_name,
            to_server_channel := [?m]\<rparr>)"
    using ldm_greeter_login_dropped [of long_name ldm_greeter_init]
    by (simp add: l) (simp add: ldm_greeter_init_def)
  ultimately show ?thesis
    by (simp add: login_then_decode_def int_length_def string_length_def l)
      (simp add: long_name_def)
qed

subsection \<open>Sequence numbers\<close>

lemma carried_sequence_number_eq:
  assumes "length h = 8" "length (h @ int_bytes n @ r) < 2 ^ 64"
  shows "carried_sequence_number (h @ int_bytes n @ r) = Some n"
proof -
  let ?g = "packet_read ldm_greeter_init (h @ int_bytes n @ r)"
  have "length (h @ int_bytes n @ r) = 12 + length r"
    using assms(1) by simp
  then have "n_read ?g = word_of_nat (12 + length r)"
    by (simp only: packet_read_simps)
  moreover have "unat (word_of_nat (12 + length r) :: gsize) = 12 + length r"
    using assms by (subst unat_of_nat) simp
  ultimately have "unat (n_read ?g) = 12 + length r"
    by (simp only:)
  then have "read_int ?g 8 = Some (n, 12)"
    using read_int_of_int_bytes [of ?g 8 n] assms(1) by simp
  then show ?thesis
    by (simp add: carried_sequence_number_def)
qed

lemma do_login_number:
  assumes "call_ok c"
  shows "\<exists>greeter1. do_login greeter c = Some greeter1
    \<and> authenticate_sequence_number greeter1 = authenticate_sequence_number greeter + 1
    \<and> carried_sequence_number (last (to_server_channel greeter1))
        = Some (authenticate_sequence_number greeter + 1)"
proof -
  let ?n = "authenticate_sequence_number greeter + 1"
  have fits: "\<exists>greeter1. ldm_greeter_login greeter username = Some greeter1
    \<and> authenticate_sequence_number greeter1 = ?n
    \<and> carried_sequence_number (last (to_server_channel greeter1)) = Some ?n"
    if "length u < 1008" "u = (case username of None \<Rightarrow> [] | Some v \<Rightarrow> v)"
    for u username
  proof -
    have "carried_sequence_number (login_message ?n u) = Some ?n"
      unfolding login_message_def
      using carried_sequence_number_eq
        [of "int_bytes GREETER_MESSAGE_LOGIN @ int_bytes (int_length + string_length u)"
          ?n "int_bytes (word_of_nat (length u)) @ u"] that(1)
      by simp
    with ldm_greeter_login_fits [OF that, of greeter] show ?thesis
      by simp
  qed
  show ?thesis
  proof (cases c)
    case LoginAsGuest
    have "carried_sequence_number (guest_message ?n) = Some ?n"
      unfolding guest_message_def
      using carried_sequence_number_eq
        [of "int_bytes GREETER_MESSAGE_LOGIN_AS_GUEST @ int_bytes int_length" ?n "[]"]
      by simp
    with LoginAsGuest show ?thesis
      by (simp add: ldm_greeter_login_as_guest_eq)
  next
    case (Login username)
    show ?thesis
    proof (cases username)
      case None
      with Login fits [of "[]" None] show ?thesis
        by simp
    next
      case (Some u)
      show ?thesis
      proof (cases "length u < 1008")
        case True
        with Login Some fits [of u "Some u"] show ?thesis
          by simp
      next
        case False
        with assms Login Some have l: "1008 \<le> length u" "length u < 2 ^ 31"
          by simp_all
        have "carried_sequence_number
            (int_bytes GREETER_MESSAGE_LOGIN @ int_bytes (int_length + string_length u)
              @ int_bytes ?n @ int_bytes (word_of_nat (length u))) = Some ?n"
          using carried_sequence_number_eq
            [of "int_bytes GREETER_MESSAGE_LOGIN @ int_bytes (int_length + string_length u)"
              ?n "int_bytes (word_of_nat (length u))"]
          by simp
        with Login Some ldm_greeter_login_dropped [OF l, of greeter] show ?thesis
          by simp
      qed
    qed
  qed
qed

lemma numbers_carried_eq:
  assumes "list_all call_ok calls"
  shows "numbers_carried greeter calls
    = Some (map (\<lambda>k. authenticate_sequence_number greeter + word_of_nat (Suc k))
              [0..<length calls])"
  using assms
proof (induction calls arbitrary: greeter)
  case Nil
  show ?case by simp
next
  case (Cons c cs)
  from Cons.prems have "call_ok c" and cs: "list_all call_ok cs"
    by simp_all
  from do_login_number [OF this(1), of greeter] obtain greeter1
    where g1: "do_login greeter c = Some greeter1"
      "authenticate_sequence_number greeter1 = authenticate_sequence_number greeter + 1"
      "carried_sequence_number (last (to_server_channel greeter1))
        = Some (authenticate_sequence_number greeter + 1)"
    by blast
  have "[0..<length (c # cs)] = 0 # map Suc [0..<length cs]"
    by (simp add: upt_conv_Cons map_Suc_upt del: upt_Suc)
  with g1 Cons.IH [OF cs, of greeter1] show ?case
    by (simp add: o_def add.assoc del: upt_Suc)
qed

lemma unat_counter:
  fixes s :: guint32
  assumes "unat s + k < 2 ^ 32"
  shows "unat (s + word_of_nat k) = unat s + k"
  using assms by (simp add: unat_word_ariths unat_of_nat)

text \<open>
  C7, amended. In a sequence of calls of \<^verbatim>\<open>ldm_greeter_login\<close> and
  \<^verbatim>\<open>ldm_greeter_login_as_guest\<close> (with user names shorter than \<open>2 ^ 31\<close> bytes) the \<open>k\<close>-th call
  carries the counter before the calls plus \<open>k\<close>, in 32-bit arithmetic. As long as the
  counter does not pass \<open>2 ^ 32 - 1\<close> the numbers are strictly increasing, hence no two
  calls share one.
\<close>

theorem login_sequence_numbers:
  assumes "list_all call_ok calls"
  shows "\<exists>ns. numbers_carried greeter calls = Some ns \<and> length ns = length calls
    \<and> (\<forall>k < length calls.
          ns ! k = authenticate_sequence_number greeter + word_of_nat (Suc k))
    \<and> (unat (authenticate_sequence_number greeter) + length calls < 2 ^ 32
          \<longrightarrow> sorted_wrt (<) ns \<and> distinct ns)"
proof -
  let ?s = "authenticate_sequence_number greeter"
  let ?ns = "map (\<lambda>k. ?s + word_of_nat (Suc k)) [0..<length calls]"
  have inc: "?ns ! i < ?ns ! j"
    if "unat ?s + length calls < 2 ^ 32" "i < j" "j < length calls" for i j
  proof -
    from that have "unat (?s + word_of_nat (Suc i)) = unat ?s + Suc i"
      "unat (?s + word_of_nat (Suc j)) = unat ?s + Suc j"
      by (simp_all only: unat_counter)
    with that show ?thesis
      by (simp add: word_less_nat_alt del: of_nat_Suc)
  qed
  have "sorted_wrt (<) ?ns \<and> distinct ?ns"
    if b: "unat ?s + length calls < 2 ^ 32"
  proof
    show "sorted_wrt (<) ?ns"
      using inc [OF b] by (simp add: sorted_wrt_iff_nth_less del: of_nat_Suc upt_Suc)
    show "distinct ?ns"
      unfolding distinct_conv_nth
    proof (intro allI impI)
      fix i j
      assume "i < length ?ns" "j < length ?ns" "i \<noteq> j"
      then consider "i < j" "j < length calls" | "j < i" "i < length calls"
        by fastforce
      then show "?ns ! i \<noteq> ?ns ! j"
        using inc [OF b, of i j] inc [OF b, of j i] by cases auto
    qed
  qed
  with numbers_carried_eq [OF assms, of greeter] show ?thesis
    by (simp del: of_nat_Suc upt_Suc)
qed

theorem login_sequence_numbers_witness:
  "list_all call_ok [Login (Some alice), LoginAsGuest, Login None]
   \<and> unat (authenticate_sequence_number ldm_greeter_init)
       + length [Login (Some alice), LoginAsGuest, Login None] < 2 ^ 32
   \<and> numbers_carried ldm_greeter_init [Login (Some alice), LoginAsGuest, Login None]
       = Some [1, 2, 3]"
proof -
  let ?calls = "[Login (Some alice), LoginAsGuest, Login None]"
  have ok: "list_all call_ok ?calls"
    by (simp add: alice_simps)
  have s: "authenticate_sequence_number ldm_greeter_init = 0"
    by (simp add: ldm_greeter_init_def)
  from login_sequence_numbers [OF ok, of ldm_greeter_init] obtain ns
    where n: "numbers_carried ldm_greeter_init ?calls = Some ns" "length ns = length ?calls"
      "\<forall>k < length ?calls. ns ! k
         = authenticate_sequence_number ldm_greeter_init + word_of_nat (Suc k)"
    by blast
  have "ns = [1, 2, 3]"
  proof (rule nth_equalityI)
    show "length ns = length [1, 2, 3 :: guint32]"
      using n(2) by simp
    fix i
    assume "i < length ns"
    with n(2) consider "i = 0" | "i = 1" | "i = 2"
      by fastforce
    then show "ns ! i = [1, 2, 3] ! i"
      using n(3) [rule_format, of i] by cases (simp_all add: s)
  qed
  with n(1) ok s show ?thesis
    by (simp only: simp_thms) simp
qed

lemma guest_numbers_ends:
  assumes "0 < n"
  shows "map_option hd (numbers_carried greeter (replicate n LoginAsGuest))
           = Some (authenticate_sequence_number greeter + 1)
    \<and> map_option last (numbers_carried greeter (replicate n LoginAsGuest))
           = Some (authenticate_sequence_number greeter + word_of_nat n)"
proof -
  from assms obtain m where n: "n = Suc m"
    by (cases n) simp_all
  have "list_all call_ok (replicate n LoginAsGuest)"
    by (simp add: list_all_iff)
  from numbers_carried_eq [OF this, of greeter]
  have "numbers_carried greeter (replicate n LoginAsGuest)
    = Some (map (\<lambda>k. authenticate_sequence_number greeter + word_of_nat (Suc k)) [0..<Suc m])"
    by (simp only: length_replicate n)
  moreover have "hd (map f [0..<Suc m]) = f 0" for f :: "nat \<Rightarrow> guint32"
    by (simp add: upt_conv_Cons del: upt_Suc)
  moreover have "last (map f [0..<Suc m]) = f m" for f :: "nat \<Rightarrow> guint32"
    by simp
  ultimately show ?thesis
    by (simp add: n del: upt_Suc)
qed

text \<open>
  C7 as stated fails: the counter has 32 bits, so in a sequence of \<open>2 ^ 32\<close> calls on a new
  greeter the last call carries 0, which is smaller than the 1 that the first call
  carried.
\<close>

theorem login_sequence_numbers_counterexample:
  "map_option hd (numbers_carried ldm_greeter_init (replicate (2 ^ 32) LoginAsGuest)) = Some 1
   \<and> map_option last (numbers_carried ldm_greeter_init (replicate (2 ^ 32) LoginAsGuest))
       = Some 0"
proof -
  have z: "authenticate_sequence_number ldm_greeter_init + 1 = 1"
    "authenticate_sequence_number ldm_greeter_init + word_of_nat (2 ^ 32) = 0"
    by (simp_all add: ldm_greeter_init_def)
  have "0 < (2 :: nat) ^ 32"
    by simp
  from guest_numbers_ends [OF this, of ldm_greeter_init] show ?thesis
    by (simp only: z)
qed

subsection \<open>The hint table\<close>

lemma read_string_defined_small:
  assumes "buffer_ok greeter" "offset \<le> n_read greeter" "unat (n_read greeter) < 2 ^ 32 - 1"
  shows "\<exists>s offset2. read_string greeter offset = Some (s, offset2)
           \<and> offset2 \<le> n_read greeter"
proof -
  from read_int_defined [OF assms(1,2)] obtain len offset1
    where r: "read_int greeter offset = Some (len, offset1)" "offset1 \<le> n_read greeter"
    by blast
  show ?thesis
  proof (cases "len + 1 = 0")
    case False
    from read_string_defined [OF assms(1,2) r(1) False] show ?thesis
      by blast
  next
    case True
    then have "len = - 1"
      by (simp add: add_eq_0_iff2)
    then have "unat (ucast len :: gsize) = 2 ^ 32 - 1"
      by (simp add: unsigned_ucast_eq unsigned_minus_1_eq_mask mask_eq_exp_minus_1)
    moreover have "unat (n_read greeter - offset1) \<le> unat (n_read greeter)"
      using r(2) by unat_arith
    ultimately have "n_read greeter - offset1 < ucast len"
      using assms(3) by (simp add: word_less_nat_alt)
    with r show ?thesis
      by (simp add: read_string_short)
  qed
qed

lemma prompt_messages_defined:
  assumes "buffer_ok greeter" "unat (n_read greeter) < 2 ^ 32 - 1" "offset \<le> n_read greeter"
  shows "\<exists>evs. prompt_messages greeter i n_messages offset = Some evs"
  using assms
proof (induction greeter i n_messages offset rule: prompt_messages.induct)
  case (1 greeter i n_messages offset)
  note ok = "1.prems"(1) and small = "1.prems"(2)
  show ?case
  proof (cases "i < n_messages")
    case False
    then show ?thesis
      by (subst prompt_messages.simps) simp
  next
    case True
    from read_int_defined [OF ok "1.prems"(3)] obtain msg_style offset1
      where r1: "read_int greeter offset = Some (msg_style, offset1)"
        "offset1 \<le> n_read greeter"
      by blast
    from read_string_defined_small [OF ok r1(2) small] obtain msg offset2
      where r2: "read_string greeter offset1 = Some (msg, offset2)"
        "offset2 \<le> n_read greeter"
      by blast
    from "1.IH" [OF True r1(1) refl r2(1) refl ok small r2(2)] obtain rest
      where "prompt_messages greeter (i + 1) n_messages offset2 = Some rest"
      by blast
    with True r1 r2 show ?thesis
      by (subst prompt_messages.simps) simp
  qed
qed

lemma handle_prompt_authentication_defined:
  assumes "buffer_ok greeter" "unat (n_read greeter) < 2 ^ 32 - 1" "offset \<le> n_read greeter"
  shows "\<exists>evs. handle_prompt_authentication greeter offset = Some (greeter, evs)"
proof -
  from read_int_defined [OF assms(1,3)] obtain sequence_number offset1
    where r1: "read_int greeter offset = Some (sequence_number, offset1)"
      "offset1 \<le> n_read greeter"
    by blast
  from read_int_defined [OF assms(1) r1(2)] obtain n_messages offset2
    where r2: "read_int greeter offset1 = Some (n_messages, offset2)"
      "offset2 \<le> n_read greeter"
    by blast
  from prompt_messages_defined [OF assms(1,2) r2(2)] obtain evs
    where "prompt_messages greeter 0 n_messages offset2 = Some evs"
    by blast
  with r1 r2 show ?thesis
    by (simp add: handle_prompt_authentication_def)
qed

lemma handle_end_authentication_defined:
  assumes "buffer_ok greeter" "offset \<le> n_read greeter"
  shows "\<exists>greeter1 evs. handle_end_authentication greeter offset = Some (greeter1, evs)
    \<and> hints greeter1 = hints greeter"
proof -
  from read_int_defined [OF assms] obtain sequence_number offset1
    where r1: "read_int greeter offset = Some (sequence_number, offset1)"
      "offset1 \<le> n_read greeter"
    by blast
  from read_int_defined [OF assms(1) r1(2)] obtain return_code offset2
    where r2: "read_int greeter offset1 = Some (return_code, offset2)"
    by blast
  from r1 r2 show ?thesis
    by (simp add: handle_end_authentication_def Let_def)
qed

lemma from_server_cb_hints:
  assumes "buffer_ok greeter" "unat (n_read greeter) < 2 ^ 32 - 1"
    "read_int greeter 0 = Some (ident, offset1)" "ident \<noteq> SERVER_MESSAGE_CONNECTED"
  shows "\<exists>greeter1 evs. from_server_cb greeter = Some (greeter1, evs)
    \<and> hints greeter1 = hints greeter"
proof -
  have z: "0 \<le> n_read greeter"
    by simp
  from read_int_range [OF assms(1) z assms(3)] have o1: "offset1 \<le> n_read greeter"
    by simp
  from read_int_defined [OF assms(1) o1] obtain len offset2
    where r2: "read_int greeter offset1 = Some (len, offset2)" "offset2 \<le> n_read greeter"
    by blast
  from handle_prompt_authentication_defined [OF assms(1,2) r2(2)]
    handle_end_authentication_defined [OF assms(1) r2(2)] assms(3,4) r2(1)
  show ?thesis
    by (auto simp: from_server_cb_def handle_session_failed_def handle_quit_def)
qed

lemma read_int_packet_read:
  "read_int (packet_read greeter packet) offset = read_int (packet_read greeter0 packet) offset"
  by (simp add: read_int_def buffer_byte_def)

lemma handle_prompt_authentication_same:
  "handle_prompt_authentication greeter offset = Some (greeter1, evs) \<Longrightarrow> greeter1 = greeter"
  by (auto simp: handle_prompt_authentication_def bind_eq_Some_conv split: if_splits)

lemma handle_end_authentication_hints:
  "handle_end_authentication greeter offset = Some (greeter1, evs)
     \<Longrightarrow> hints greeter1 = hints greeter"
  by (auto simp: handle_end_authentication_def bind_eq_Some_conv Let_def split: if_splits)

lemma from_server_cb_hints_any:
  assumes "from_server_cb greeter = Some (greeter1, evs)"
    "read_int greeter 0 = Some (ident, offset1)" "ident \<noteq> SERVER_MESSAGE_CONNECTED"
  shows "hints greeter1 = hints greeter"
  using assms
  by (auto simp: from_server_cb_def bind_eq_Some_conv handle_session_failed_def
      handle_quit_def split: if_splits
      dest: handle_prompt_authentication_same handle_end_authentication_hints)

lemma later_packet_id:
  assumes "later_packet packet" "read_int (packet_read greeter packet) 0 = Some (ident, offset1)"
  shows "ident \<noteq> SERVER_MESSAGE_CONNECTED"
  using assms read_int_packet_read [of greeter packet 0 ldm_greeter_init]
  by (auto simp: later_packet_def packet_id_def)

lemma from_server_hints:
  assumes "list_all later_packet packets" "from_server greeter packets = Some (greeter1, evs)"
  shows "hints greeter1 = hints greeter"
  using assms
proof (induction packets arbitrary: greeter evs)
  case Nil
  then show ?case by simp
next
  case (Cons packet packets)
  let ?g = "packet_read greeter packet"
  from Cons.prems(1) have p: "later_packet packet" and ps: "list_all later_packet packets"
    by simp_all
  from Cons.prems(2) obtain greeter2 evs1 evs2
    where g2: "from_server_cb ?g = Some (greeter2, evs1)"
      "from_server greeter2 packets = Some (greeter1, evs2)"
    by (auto split: option.splits)
  from read_int_defined [of ?g 0] obtain ident offset1
    where r: "read_int ?g 0 = Some (ident, offset1)"
    by auto
  from from_server_cb_hints_any [OF g2(1) r later_packet_id [OF p r]]
  have "hints greeter2 = hints greeter"
    by simp
  with Cons.IH [OF ps g2(2)] show ?case
    by simp
qed

lemma from_server_defined:
  assumes "list_all later_packet packets"
    "list_all (\<lambda>packet. length packet < 2 ^ 32 - 1) packets"
  shows "\<exists>greeter1 evs. from_server greeter packets = Some (greeter1, evs)"
  using assms
proof (induction packets arbitrary: greeter)
  case Nil
  show ?case by simp
next
  case (Cons packet packets)
  let ?g = "packet_read greeter packet"
  from Cons.prems have p: "later_packet packet" "length packet < 2 ^ 32 - 1"
    and ps: "list_all later_packet packets"
      "list_all (\<lambda>packet. length packet < 2 ^ 32 - 1) packets"
    by simp_all
  have small: "unat (n_read ?g) < 2 ^ 32 - 1"
    using p(2) by (simp add: unat_of_nat)
  from read_int_defined [of ?g 0] obtain ident offset1
    where r: "read_int ?g 0 = Some (ident, offset1)"
    by auto
  from from_server_cb_hints [OF buffer_ok_packet_read small r later_packet_id [OF p(1) r]]
  obtain greeter1 evs where "from_server_cb ?g = Some (greeter1, evs)"
    by auto
  with Cons.IH [OF ps, of greeter1] show ?case
    by auto
qed

text \<open>
  C6, amended. Every later message that is not a CONNECTED message leaves the hint table
  as it is: whatever the table holds, once a sequence of packets of which none is a
  CONNECTED message has been dispatched, the table is the same mapping, with the same
  names and values and no new entry. The packets are dispatched to the end, at least
  when each has fewer than \<open>2 ^ 32 - 1\<close> bytes.
\<close>

theorem hints_unchanged_by_later_messages:
  assumes "list_all later_packet packets"
  shows "(\<forall>greeter1 evs. from_server greeter packets = Some (greeter1, evs)
            \<longrightarrow> hints greeter1 = hints greeter)
    \<and> (list_all (\<lambda>packet. length packet < 2 ^ 32 - 1) packets
         \<longrightarrow> (\<exists>greeter1 evs. from_server greeter packets = Some (greeter1, evs)))"
  using from_server_hints [OF assms] from_server_defined [OF assms] by blast

lemma read_hints_done:
  "\<not> offset < ucast len \<Longrightarrow> read_hints greeter len offset h = Some h"
  by (subst read_hints.simps) simp

lemma read_hints_step:
  assumes "offset < ucast len" "read_string greeter offset = Some (nm, offset1)"
    "read_string greeter offset1 = Some (v, offset2)" "h nm = None"
  shows "read_hints greeter len offset h = read_hints greeter len offset2 (h(nm \<mapsto> v))"
  using assms by (subst read_hints.simps) simp

lemma read_hints_repeated:
  assumes "offset < ucast len" "read_string greeter offset = Some (nm, offset1)"
    "read_string greeter offset1 = Some (v, offset2)" "h nm = Some w"
  shows "read_hints greeter len offset h = None"
  using assms by (subst read_hints.simps) simp

lemma connected_one_reads:
  assumes "a \<noteq> 0" "b \<noteq> 0"
    and "g = packet_read greeter (connected_packet [0x31] [a] [b])"
  shows "read_int g 0 = Some (SERVER_MESSAGE_CONNECTED, 4)" "read_int g 4 = Some (15, 8)"
    "read_string g 8 = Some ([0x31], 13)" "read_string g 13 = Some ([a], 18)"
    "read_string g 18 = Some ([b], 23)"
proof -
  have ok: "buffer_ok g"
    by (simp add: assms(3))
  have buf: "read_buffer g = int_bytes SERVER_MESSAGE_CONNECTED @ int_bytes 15
      @ int_bytes 1 @ [0x31] @ int_bytes 1 @ [a] @ int_bytes 1 @ [b]"
    and n: "unat (n_read g) = 23"
    by (simp_all add: assms(3) connected_packet_def)
  show "read_int g 0 = Some (SERVER_MESSAGE_CONNECTED, 4)"
    using read_int_of_int_bytes [OF ok, of 0 SERVER_MESSAGE_CONNECTED] by (simp add: buf n)
  show "read_int g 4 = Some (15, 8)"
    using read_int_of_int_bytes [OF ok, of 4 15] by (simp add: buf n)
  show "read_string g 8 = Some ([0x31], 13)"
    using read_string_of_bytes [OF ok, of 8 "[0x31]"] by (simp add: buf n)
  show "read_string g 13 = Some ([a], 18)"
    using read_string_of_bytes [OF ok, of 13 "[a]"] assms(1) by (simp add: buf n)
  show "read_string g 18 = Some ([b], 23)"
    using read_string_of_bytes [OF ok, of 18 "[b]"] assms(2) by (simp add: buf n)
qed

lemma ucast_15: "(ucast (15 :: guint32) :: gsize) = 15"
  by (simp add: ucast_eq)

lemma connected_one_hint:
  assumes "a \<noteq> 0" "b \<noteq> 0" "hints greeter [a] = None"
    "hints greeter hint_autologin_timeout = None"
    and "g = packet_read greeter (connected_packet [0x31] [a] [b])"
  shows "from_server_cb g
    = Some (g\<lparr>hints := (hints greeter)([a] \<mapsto> [b]), n_read := 0\<rparr>,
            [(CONNECTED, g\<lparr>hints := (hints greeter)([a] \<mapsto> [b])\<rparr>)])"
proof -
  note r = connected_one_reads [OF assms(1,2,5)]
  have h: "hints g = hints greeter"
    by (simp add: assms(5))
  have "read_hints g 15 13 (hints g) = read_hints g 15 23 ((hints g)([a] \<mapsto> [b]))"
    by (rule read_hints_step [OF _ r(4) r(5)]) (simp_all add: ucast_15 h assms(3))
  also have "\<dots> = Some ((hints g)([a] \<mapsto> [b]))"
    by (rule read_hints_done) (simp add: ucast_15)
  finally have rh: "read_hints g 15 13 (hints g) = Some ((hints greeter)([a] \<mapsto> [b]))"
    by (simp add: h)
  have t: "ldm_greeter_get_autologin_timeout_hint
      (g\<lparr>hints := (hints greeter)([a] \<mapsto> [b])\<rparr>) = 0"
    using assms(4)
    by (simp add: ldm_greeter_get_autologin_timeout_hint_def ldm_greeter_get_hint_def
        hint_autologin_timeout_def)
  show ?thesis
    using r(1,2,3) rh t
    by (simp add: from_server_cb_def handle_connected_def g_signal_emit_def Let_def)
qed

lemma connected_repeated_hint:
  assumes "a \<noteq> 0" "b \<noteq> 0" "hints greeter [a] = Some w"
    and "g = packet_read greeter (connected_packet [0x31] [a] [b])"
  shows "from_server_cb g = None"
proof -
  note r = connected_one_reads [OF assms(1,2,4)]
  have h: "hints g = hints greeter"
    by (simp add: assms(4))
  have "read_hints g 15 13 (hints g) = None"
    by (rule read_hints_repeated [OF _ r(4) r(5)]) (simp_all add: ucast_15 h assms(3))
  with r(1,2,3) show ?thesis
    by (simp add: from_server_cb_def handle_connected_def)
qed

lemma no_timeout_hint [simp]:
  "hints ldm_greeter_init hint_autologin_timeout = None"
  by (simp add: ldm_greeter_init_def)

lemma no_hint [simp]: "hints ldm_greeter_init nm = None"
  by (simp add: ldm_greeter_init_def)

lemma connected_once_eq:
  "connected_once
   = (packet_read ldm_greeter_init (connected_packet [0x31] [0x61] [0x62]))
       \<lparr>hints := [[0x61] \<mapsto> [0x62]], n_read := 0\<rparr>"
  using connected_one_hint [OF _ _ no_hint no_timeout_hint refl, of "0x61" "0x62"]
  by (simp add: connected_once_def) (simp add: ldm_greeter_init_def)

lemma connected_once_hints: "hints connected_once = [[0x61] \<mapsto> [0x62]]"
  by (simp add: connected_once_eq)

lemma connected_authenticating_eq:
  "connected_authenticating = connected_once\<lparr>cancelling_authentication := False,
            authenticate_sequence_number := 1,
            in_authentication := True, is_authenticated := False,
            authentication_user := Some alice,
            to_server_channel := [login_message 1 alice]\<rparr>"
  using ldm_greeter_login_fits [of alice "Some alice" connected_once]
  by (simp add: connected_authenticating_def alice_simps)
    (simp add: connected_once_eq packet_read_def ldm_greeter_init_def)

lemma later_packet_examples:
  "later_packet (prompt_packet 1 1 alice)" "later_packet (end_packet 1 0)"
proof -
  have "read_int (packet_read ldm_greeter_init (prompt_packet 1 1 alice)) 0
      = Some (SERVER_MESSAGE_PROMPT_AUTHENTICATION, 4)"
    using read_int_of_int_bytes
      [of "packet_read ldm_greeter_init (prompt_packet 1 1 alice)" 0
        SERVER_MESSAGE_PROMPT_AUTHENTICATION]
    by (simp add: prompt_packet_def alice_simps)
  then show "later_packet (prompt_packet 1 1 alice)"
    by (simp add: later_packet_def packet_id_def SERVER_MESSAGE_PROMPT_AUTHENTICATION_def
        SERVER_MESSAGE_CONNECTED_def)
  have "read_int (packet_read ldm_greeter_init (end_packet 1 0)) 0
      = Some (SERVER_MESSAGE_END_AUTHENTICATION, 4)"
    using read_int_of_int_bytes
      [of "packet_read ldm_greeter_init (end_packet 1 0)" 0 SERVER_MESSAGE_END_AUTHENTICATION]
    by (simp add: end_packet_def)
  then show "later_packet (end_packet 1 0)"
    by (simp add: later_packet_def packet_id_def SERVER_MESSAGE_END_AUTHENTICATION_def
        SERVER_MESSAGE_CONNECTED_def)
qed

lemma prompt_packet_dispatch:
  assumes "authenticate_sequence_number greeter = n" "\<not> cancelling_authentication greeter"
    and "g = packet_read greeter (prompt_packet n 1 alice)"
  shows "from_server_cb g
    = Some (g\<lparr>n_read := 0\<rparr>, [(SHOW_PROMPT alice LDM_PROMPT_TYPE_SECRET, g)])"
proof -
  have ok: "buffer_ok g"
    by (simp add: assms(3))
  have buf: "read_buffer g = int_bytes SERVER_MESSAGE_PROMPT_AUTHENTICATION @ int_bytes 21
      @ int_bytes n @ int_bytes 1 @ int_bytes 1 @ int_bytes 5 @ alice"
    and len: "unat (n_read g) = 29"
    by (simp_all add: assms(3) prompt_packet_def alice_simps)
  have r0: "read_int g 0 = Some (SERVER_MESSAGE_PROMPT_AUTHENTICATION, 4)"
    using read_int_of_int_bytes [OF ok, of 0 SERVER_MESSAGE_PROMPT_AUTHENTICATION]
    by (simp add: buf len)
  have r4: "read_int g 4 = Some (21, 8)"
    using read_int_of_int_bytes [OF ok, of 4 21] by (simp add: buf len)
  have r8: "read_int g 8 = Some (n, 12)"
    using read_int_of_int_bytes [OF ok, of 8 n] by (simp add: buf len)
  have r12: "read_int g 12 = Some (1, 16)"
    using read_int_of_int_bytes [OF ok, of 12 1] by (simp add: buf len)
  have r16: "read_int g 16 = Some (1, 20)"
    using read_int_of_int_bytes [OF ok, of 16 1] by (simp add: buf len)
  have s20: "read_string g 20 = Some (alice, 29)"
    using read_string_of_bytes [OF ok, of 20 alice] by (simp add: buf len alice_simps)
  have pm: "prompt_messages g 0 1 16 = Some [(SHOW_PROMPT alice LDM_PROMPT_TYPE_SECRET, g)]"
    by (simp add: r16 s20 PAM_PROMPT_ECHO_OFF_def g_signal_emit_def)
  have a: "authenticate_sequence_number g = n" "\<not> cancelling_authentication g"
    using assms by simp_all
  show ?thesis
    using r0 r4 r8 r12 pm a
    by (simp add: from_server_cb_def handle_prompt_authentication_def
        SERVER_MESSAGE_PROMPT_AUTHENTICATION_def SERVER_MESSAGE_CONNECTED_def)
qed

lemma end_packet_dispatch:
  assumes "authenticate_sequence_number greeter = n"
    and "g = packet_read greeter (end_packet n return_code)"
  shows "\<exists>greeter1 greeter2. from_server_cb g
    = Some (greeter1, [(AUTHENTICATION_COMPLETE, greeter2)])"
proof -
  have ok: "buffer_ok g"
    by (simp add: assms(2))
  have r0: "read_int g 0 = Some (SERVER_MESSAGE_END_AUTHENTICATION, 4)"
    using read_int_of_int_bytes [OF ok, of 0 SERVER_MESSAGE_END_AUTHENTICATION]
    by (simp add: assms(2) end_packet_def)
  have r4: "read_int g 4 = Some (8, 8)"
    using read_int_of_int_bytes [OF ok, of 4 8] by (simp add: assms(2) end_packet_def)
  note r = end_packet_reads [OF assms(2)]
  have a: "authenticate_sequence_number g = n"
    using assms by simp
  from handle_end_authentication_current [of g 8 12 return_code 16] r a
  show ?thesis
    using r0 r4
    by (simp add: from_server_cb_def SERVER_MESSAGE_PROMPT_AUTHENTICATION_def
        SERVER_MESSAGE_CONNECTED_def SERVER_MESSAGE_END_AUTHENTICATION_def)
qed

lemma later_packets_signals:
  "signals_after connected_authenticating [prompt_packet 1 1 alice, end_packet 1 0]
       = Some [SHOW_PROMPT alice LDM_PROMPT_TYPE_SECRET, AUTHENTICATION_COMPLETE]"
proof -
  let ?g = "packet_read connected_authenticating (prompt_packet 1 1 alice)"
  have a: "authenticate_sequence_number connected_authenticating = 1"
    "\<not> cancelling_authentication connected_authenticating"
    by (simp_all add: connected_authenticating_eq)
  note p = prompt_packet_dispatch [OF a refl]
  have "authenticate_sequence_number (?g\<lparr>n_read := 0\<rparr>) = 1"
    using a by simp
  from end_packet_dispatch [OF this refl, of 0] obtain greeter1 greeter2
    where "from_server_cb (packet_read (?g\<lparr>n_read := 0\<rparr>) (end_packet 1 0))
      = Some (greeter1, [(AUTHENTICATION_COMPLETE, greeter2)])"
    by blast
  with p show ?thesis
    by (simp add: signals_after_def)
qed

theorem hints_unchanged_by_later_messages_witness:
  "list_all later_packet [prompt_packet 1 1 alice, end_packet 1 0]
   \<and> list_all (\<lambda>packet. length packet < 2 ^ 32 - 1) [prompt_packet 1 1 alice, end_packet 1 0]
   \<and> authenticate_sequence_number connected_authenticating = 1
   \<and> signals_after connected_authenticating [prompt_packet 1 1 alice, end_packet 1 0]
       = Some [SHOW_PROMPT alice LDM_PROMPT_TYPE_SECRET, AUTHENTICATION_COMPLETE]
   \<and> hint_after connected_authenticating [prompt_packet 1 1 alice, end_packet 1 0] [0x61]
       = Some (Some [0x62])
   \<and> hint_after connected_authenticating [prompt_packet 1 1 alice, end_packet 1 0] [0x78]
       = Some None"
proof -
  have l: "list_all later_packet [prompt_packet 1 1 alice, end_packet 1 0]"
    by (simp add: later_packet_examples)
  have n: "list_all (\<lambda>packet. length packet < 2 ^ 32 - 1)
      [prompt_packet 1 1 alice, end_packet 1 0]"
    by (simp add: prompt_packet_def end_packet_def alice_simps)
  have a: "authenticate_sequence_number connected_authenticating = 1"
    by (simp add: connected_authenticating_eq)
  have s: "signals_after connected_authenticating [prompt_packet 1 1 alice, end_packet 1 0]
       = Some [SHOW_PROMPT alice LDM_PROMPT_TYPE_SECRET, AUTHENTICATION_COMPLETE]"
    by (rule later_packets_signals)
  from hints_unchanged_by_later_messages [OF l, of connected_authenticating] n
  obtain greeter1 evs
    where "from_server connected_authenticating [prompt_packet 1 1 alice, end_packet 1 0]
        = Some (greeter1, evs)" "hints greeter1 = hints connected_authenticating"
    by blast
  with l n a s show ?thesis
    by (simp add: hint_after_def ldm_greeter_get_hint_def connected_authenticating_eq
        connected_once_hints)
qed

text \<open>
  C6 as stated fails for a second CONNECTED message: \<^verbatim>\<open>handle_connected\<close> inserts the pairs
  of every CONNECTED message into the table. After the first message, with \<^verbatim>\<open>a=b\<close>, the
  table has no hint \<^verbatim>\<open>c\<close>; after a second one with \<^verbatim>\<open>c=d\<close> it has the new entry \<^verbatim>\<open>c\<close>.
\<close>

theorem hints_unchanged_by_later_messages_counterexample:
  "hint_after ldm_greeter_init [connected_packet [0x31] [0x61] [0x62]] [0x63]
     = Some None
   \<and> hint_after ldm_greeter_init
        [connected_packet [0x31] [0x61] [0x62], connected_packet [0x31] [0x63] [0x64]] [0x63]
     = Some (Some [0x64])"
proof -
  let ?g1 = "packet_read ldm_greeter_init (connected_packet [0x31] [0x61] [0x62])"
  let ?h1 = "(hints ldm_greeter_init)([0x61] \<mapsto> [0x62])"
  let ?g2 = "packet_read (?g1\<lparr>hints := ?h1, n_read := 0\<rparr>)
               (connected_packet [0x31] [0x63] [0x64])"
  have c1: "from_server_cb ?g1 = Some (?g1\<lparr>hints := ?h1, n_read := 0\<rparr>,
      [(CONNECTED, ?g1\<lparr>hints := ?h1\<rparr>)])"
    using connected_one_hint [OF _ _ no_hint no_timeout_hint refl, of "0x61" "0x62"] by simp
  have "[0x61] \<noteq> hint_autologin_timeout"
    by (simp add: hint_autologin_timeout_def)
  then have t: "hints (?g1\<lparr>hints := ?h1, n_read := 0\<rparr>) hint_autologin_timeout = None"
    by simp
  have f: "hints (?g1\<lparr>hints := ?h1, n_read := 0\<rparr>) [0x63] = None"
    by simp
  from connected_one_hint [OF _ _ f t refl, of "0x64"]
  have c2: "from_server_cb ?g2 = Some (?g2\<lparr>hints := ?h1([0x63] \<mapsto> [0x64]), n_read := 0\<rparr>,
      [(CONNECTED, ?g2\<lparr>hints := ?h1([0x63] \<mapsto> [0x64])\<rparr>)])"
    by simp
  show ?thesis
    using c1 c2 by (simp add: hint_after_def ldm_greeter_get_hint_def)
qed

text \<open>
  A second CONNECTED message that repeats the name of a hint runs into the read of the
  freed name: after \<^verbatim>\<open>a=b\<close>, the message with \<^verbatim>\<open>a=c\<close> has no defined outcome.
\<close>

lemma second_connected_repeated_name:
  "from_server ldm_greeter_init
     [connected_packet [0x31] [0x61] [0x62], connected_packet [0x31] [0x61] [0x63]] = None"
proof -
  let ?g1 = "packet_read ldm_greeter_init (connected_packet [0x31] [0x61] [0x62])"
  let ?h1 = "(hints ldm_greeter_init)([0x61] \<mapsto> [0x62])"
  let ?g2 = "packet_read (?g1\<lparr>hints := ?h1, n_read := 0\<rparr>)
               (connected_packet [0x31] [0x61] [0x63])"
  have c1: "from_server_cb ?g1 = Some (?g1\<lparr>hints := ?h1, n_read := 0\<rparr>,
      [(CONNECTED, ?g1\<lparr>hints := ?h1\<rparr>)])"
    using connected_one_hint [OF _ _ no_hint no_timeout_hint refl, of "0x61" "0x62"] by simp
  have f: "hints (?g1\<lparr>hints := ?h1, n_read := 0\<rparr>) [0x61] = Some [0x62]"
    by simp
  from connected_repeated_hint [OF _ _ f refl, of "0x63"]
  have "from_server_cb ?g2 = None"
    by simp
  with c1 show ?thesis
    by simp
qed

subsection \<open>The list of users\<close>

lemma strcmp_eq_0 [simp]: "strcmp a b = 0 \<longleftrightarrow> a = b"
  by (induction a b rule: strcmp.induct) auto

lemma strcmp_total: "0 < strcmp a b \<Longrightarrow> strcmp b a \<le> 0"
  by (induction a b rule: strcmp.induct) (auto split: if_splits)

lemma strcmp_trans: "strcmp a b \<le> 0 \<Longrightarrow> strcmp b c \<le> 0 \<Longrightarrow> strcmp a c \<le> 0"
proof (induction a b arbitrary: c rule: strcmp.induct)
  case 1
  then show ?case by simp
next
  case (2 y ys)
  then show ?case by (cases c) simp_all
next
  case (3 x xs)
  then show ?case by simp
next
  case (4 x xs y ys)
  show ?case
  proof (cases c)
    case Nil
    with 4 show ?thesis by simp
  next
    case (Cons z zs)
    show ?thesis
    proof (cases "x = y")
      case True
      with 4 Cons show ?thesis
        by (auto split: if_splits)
    next
      case False
      with 4 Cons show ?thesis
        by (auto split: if_splits)
    qed
  qed
qed

lemma compare_user_total:
  "0 < compare_user greeter a b \<Longrightarrow> compare_user greeter b a \<le> 0"
  by (simp add: compare_user_def strcmp_total)

lemma compare_user_trans:
  "compare_user greeter a b \<le> 0 \<Longrightarrow> compare_user greeter b c \<le> 0
     \<Longrightarrow> compare_user greeter a c \<le> 0"
  unfolding compare_user_def by (rule strcmp_trans)

lemma set_g_list_insert_sorted [simp]:
  "set (g_list_insert_sorted xs d func) = insert d (set xs)"
  by (induction xs) auto

lemma distinct_g_list_insert_sorted:
  "distinct xs \<Longrightarrow> d \<notin> set xs \<Longrightarrow> distinct (g_list_insert_sorted xs d func)"
  by (induction xs) auto

lemma sorted_g_list_insert_sorted:
  assumes "sorted_wrt (\<lambda>a b. compare_user greeter a b \<le> 0) xs"
  shows "sorted_wrt (\<lambda>a b. compare_user greeter a b \<le> 0)
           (g_list_insert_sorted xs d (compare_user greeter))"
  using assms
proof (induction xs)
  case Nil
  show ?case by simp
next
  case (Cons x xs)
  show ?case
  proof (cases "0 < compare_user greeter d x")
    case True
    with Cons compare_user_total [OF True] show ?thesis
      by auto
  next
    case False
    then have "compare_user greeter d x \<le> 0"
      by simp
    with Cons.prems compare_user_trans [of greeter d x] False show ?thesis
      by auto
  qed
qed

lemma sorted_compare_user_cong:
  assumes "\<forall>p \<in> set xs. user_heap greeter1 p = user_heap greeter p"
  shows "sorted_wrt (\<lambda>a b. compare_user greeter1 a b \<le> 0) xs
    \<longleftrightarrow> sorted_wrt (\<lambda>a b. compare_user greeter a b \<le> 0) xs"
  using assms by (induction xs) (auto simp: compare_user_def)

lemma find_user_Some:
  "find_user greeter xs nm = Some p
     \<Longrightarrow> p \<in> set xs \<and> user_name (user_heap greeter p) = nm"
  by (induction xs) (auto simp: ldm_user_get_name_def split: if_splits)

lemma find_user_None:
  "find_user greeter xs nm = None
     \<longleftrightarrow> (\<forall>p \<in> set xs. user_name (user_heap greeter p) \<noteq> nm)"
  by (induction xs) (auto simp: ldm_user_get_name_def)

lemma find_user_cong:
  assumes "\<forall>p \<in> set xs. user_name (user_heap greeter1 p) = user_name (user_heap greeter p)"
  shows "find_user greeter1 xs nm = find_user greeter xs nm"
  using assms by (induction xs) (auto simp: ldm_user_get_name_def)

lemma find_user_distinct:
  assumes "distinct (map (\<lambda>p. user_name (user_heap greeter p)) xs)" "p \<in> set xs"
  shows "find_user greeter xs (user_name (user_heap greeter p)) = Some p"
  using assms by (induction xs) (auto simp: ldm_user_get_name_def)

lemma cached_user_Some:
  assumes "users_allocated g0" "cached_user g0 e = Some p"
  shows "p \<in> set (users g0)" "p < user_count g0" "user_name (user_heap g0 p) = pw_name e"
  using assms find_user_Some [of g0 "users g0" "pw_name e" p]
  by (auto simp: cached_user_def users_allocated_def list_all_iff)

lemma user_name_entry_user [simp]: "user_name (entry_user env e) = pw_name e"
  by (simp add: entry_user_def)

lemma load_heap_names:
  assumes "users_allocated g0" "load_heap env g0 vs st" "p < user_count g0"
  shows "user_name (user_heap (ls_greeter st) p) = user_name (user_heap g0 p)"
proof (cases "\<exists>e \<in> set vs. cached_user g0 e = Some p")
  case True
  then obtain e where e: "e \<in> set vs" "cached_user g0 e = Some p"
    by blast
  with assms(2,3) have "user_heap (ls_greeter st) p = entry_user env e"
    by (simp add: load_heap_def)
  with cached_user_Some(3) [OF assms(1) e(2)] show ?thesis
    by simp
next
  case False
  with assms(2,3) show ?thesis
    by (simp add: load_heap_def)
qed

lemma load_heap_fields:
  assumes "load_heap env g0 vs st"
  shows "users (ls_greeter st) = users g0" "have_users (ls_greeter st) = have_users g0"
    "user_count (ls_greeter st) = user_count g0 + length vs"
proof -
  from assms have eq: "ls_greeter st = g0\<lparr>user_heap := user_heap (ls_greeter st),
      user_count := user_count g0 + length vs\<rparr>"
    by (simp add: load_heap_def)
  show "users (ls_greeter st) = users g0"
    by (subst eq) simp
  show "have_users (ls_greeter st) = have_users g0"
    by (subst eq) simp
  show "user_count (ls_greeter st) = user_count g0 + length vs"
    by (subst eq) simp
qed

lemma load_heap_untouched:
  assumes "users_allocated g0" "load_heap env g0 vs st" "cached_user g0 e = Some p"
    "pw_name e \<notin> pw_name ` set vs"
  shows "user_heap (ls_greeter st) p = user_heap g0 p"
proof -
  note c = cached_user_Some [OF assms(1,3)]
  have "cached_user g0 e' \<noteq> Some p" if "e' \<in> set vs" for e'
  proof
    assume "cached_user g0 e' = Some p"
    from cached_user_Some(3) [OF assms(1) this] c(3) have "pw_name e' = pw_name e"
      by simp
    with that assms(4) show False
      by (metis imageI)
  qed
  with assms(2) c(2) show ?thesis
    by (simp add: load_heap_def)
qed

lemma load_entry_hidden:
  "hidden_entry env e
     \<Longrightarrow> load_entry env (minimum_uid_of env) (hidden_users_of env) (hidden_shells_of env) e st
         = st"
  by (auto simp: load_entry_def hidden_entry_def split: option.splits)

lemma find_user_alloc:
  assumes "users_allocated g0" "load_heap env g0 vs st"
  shows "find_user
           (ls_greeter st\<lparr>user_heap := (user_heap (ls_greeter st))
                             (user_count g0 + length vs := u), user_count := n\<rparr>)
           (users g0) nm
         = find_user g0 (users g0) nm"
proof (rule find_user_cong, rule ballI)
  fix p
  assume "p \<in> set (users g0)"
  with assms(1) have "p < user_count g0"
    by (simp add: users_allocated_def list_all_iff)
  with load_heap_names [OF assms this]
  show "user_name (user_heap
          (ls_greeter st\<lparr>user_heap := (user_heap (ls_greeter st))
                            (user_count g0 + length vs := u), user_count := n\<rparr>) p)
        = user_name (user_heap g0 p)"
    by simp
qed

lemma load_entry_new:
  assumes "users_allocated g0" "load_heap env g0 vs st" "\<not> hidden_entry env e"
    "cached_user g0 e = None"
    and "g1 = ls_greeter st\<lparr>user_heap := (user_heap (ls_greeter st))
                 (user_count g0 + length vs := entry_user env e),
               user_count := Suc (user_count g0 + length vs)\<rparr>"
  shows "load_entry env (minimum_uid_of env) (hidden_users_of env) (hidden_shells_of env) e st
    = st\<lparr>ls_greeter := g1,
         ls_new_users :=
           (if have_users g0
            then g_list_insert_sorted (ls_new_users st) (user_count g0 + length vs)
                   (compare_user g1)
            else ls_new_users st),
         ls_users := g_list_insert_sorted (ls_users st) (user_count g0 + length vs)
                       (compare_user g1)\<rparr>"
proof -
  note f = load_heap_fields [OF assms(2)]
  from assms(3) have vis: "\<not> pw_uid e < minimum_uid_of env"
    "\<not> (case pw_shell e of None \<Rightarrow> False
          | Some shell \<Rightarrow> list_ex (\<lambda>h. strcmp shell h = 0) (hidden_shells_of env))"
    "\<not> list_ex (\<lambda>h. strcmp (pw_name e) h = 0) (hidden_users_of env)"
    by (simp_all add: hidden_entry_def)
  from assms(4) find_user_alloc [OF assms(1,2)]
  have fu: "find_user
           (ls_greeter st\<lparr>user_heap := (user_heap (ls_greeter st))
                             (user_count g0 + length vs := u), user_count := n\<rparr>)
           (users g0) (pw_name e) = None" for u n
    by (simp add: cached_user_def)
  show ?thesis
    unfolding load_entry_def Let_def
    by (simp only: vis if_False ldm_user_new_def f split_conv)
      (simp add: fu ldm_user_get_name_def assms(5) entry_user_def f)
qed

lemma load_entry_cached:
  assumes "users_allocated g0" "load_heap env g0 vs st" "\<not> hidden_entry env e"
    "cached_user g0 e = Some info" "pw_name e \<notin> pw_name ` set vs"
    and "g1 = ls_greeter st\<lparr>user_heap := (user_heap (ls_greeter st))
                 (user_count g0 + length vs := entry_user env e, info := entry_user env e),
               user_count := Suc (user_count g0 + length vs)\<rparr>"
  shows "load_entry env (minimum_uid_of env) (hidden_users_of env) (hidden_shells_of env) e st
    = st\<lparr>ls_greeter := g1,
         ls_changed_users :=
           (if user_heap g0 info \<noteq> entry_user env e
            then g_list_insert_sorted (ls_changed_users st) info (compare_user g1)
            else ls_changed_users st),
         ls_users := g_list_insert_sorted (ls_users st) info (compare_user g1)\<rparr>"
proof -
  note f = load_heap_fields [OF assms(2)]
  note c = cached_user_Some [OF assms(1,4)]
  from assms(3) have vis: "\<not> pw_uid e < minimum_uid_of env"
    "\<not> (case pw_shell e of None \<Rightarrow> False
          | Some shell \<Rightarrow> list_ex (\<lambda>h. strcmp shell h = 0) (hidden_shells_of env))"
    "\<not> list_ex (\<lambda>h. strcmp (pw_name e) h = 0) (hidden_users_of env)"
    by (simp_all add: hidden_entry_def)
  from assms(4) find_user_alloc [OF assms(1,2)]
  have fu: "find_user
           (ls_greeter st\<lparr>user_heap := (user_heap (ls_greeter st))
                             (user_count g0 + length vs := u), user_count := n\<rparr>)
           (users g0) (pw_name e) = Some info" for u n
    by (simp add: cached_user_def)
  have old: "user_heap (ls_greeter st) info = user_heap g0 info"
    by (rule load_heap_untouched [OF assms(1,2,4,5)])
  have ne: "info \<noteq> user_count g0 + length vs"
    using c(2) by simp
  have same: "user_heap g0 info = entry_user env e
    \<longleftrightarrow> user_real_name (user_heap g0 info) = user_real_name (entry_user env e)
      \<and> user_home_directory (user_heap g0 info) = user_home_directory (entry_user env e)
      \<and> user_image (user_heap g0 info) = user_image (entry_user env e)
      \<and> user_logged_in (user_heap g0 info) = user_logged_in (entry_user env e)"
    using c(3) by (auto intro: LdmUser.equality)
  have upd: "(user_heap g0 info)\<lparr>user_real_name := user_real_name (entry_user env e),
      user_home_directory := user_home_directory (entry_user env e),
      user_image := user_image (entry_user env e),
      user_logged_in := user_logged_in (entry_user env e)\<rparr> = entry_user env e"
    using c(3) by (intro LdmUser.equality) simp_all
  have new: "ldm_user_new (ls_greeter st) (pw_name e) (user_real_name (entry_user env e))
      (pw_dir e) (user_image (entry_user env e)) False
    = (user_count g0 + length vs,
       ls_greeter st\<lparr>user_heap := (user_heap (ls_greeter st))
           (user_count g0 + length vs := entry_user env e),
         user_count := Suc (user_count g0 + length vs)\<rparr>)"
    by (simp add: ldm_user_new_def f entry_user_def)
  have "load_entry env (minimum_uid_of env) (hidden_users_of env) (hidden_shells_of env) e st
    = (let (user, greeter1) =
             ldm_user_new (ls_greeter st) (pw_name e) (user_real_name (entry_user env e))
               (pw_dir e) (user_image (entry_user env e)) False;
           new_user = user_heap greeter1 user
       in
         (case find_user greeter1 (users greeter1) (ldm_user_get_name new_user) of
            Some info \<Rightarrow>
              let (changed, greeter2) =
                    ldm_user_update greeter1 info (user_real_name new_user)
                      (user_home_directory new_user) (user_image new_user)
                      (user_logged_in new_user);
                  changed_users =
                    (if changed
                     then g_list_insert_sorted (ls_changed_users st) info (compare_user greeter2)
                     else ls_changed_users st)
              in st\<lparr>ls_greeter := greeter2,
                     ls_changed_users := changed_users,
                     ls_users := g_list_insert_sorted (ls_users st) info (compare_user greeter2)\<rparr>
          | None \<Rightarrow>
              let new_users =
                    (if have_users greeter1
                     then g_list_insert_sorted (ls_new_users st) user (compare_user greeter1)
                     else ls_new_users st)
              in st\<lparr>ls_greeter := greeter1,
                     ls_new_users := new_users,
                     ls_users := g_list_insert_sorted (ls_users st) user (compare_user greeter1)\<rparr>))"
    unfolding load_entry_def Let_def
    by (simp only: vis if_False) (simp add: entry_user_def)
  also have "\<dots> = st\<lparr>ls_greeter := g1,
         ls_changed_users :=
           (if user_heap g0 info \<noteq> entry_user env e
            then g_list_insert_sorted (ls_changed_users st) info (compare_user g1)
            else ls_changed_users st),
         ls_users := g_list_insert_sorted (ls_users st) info (compare_user g1)\<rparr>"
  proof -
    let ?G = "ls_greeter st\<lparr>user_heap := (user_heap (ls_greeter st))
           (user_count g0 + length vs := entry_user env e),
         user_count := Suc (user_count g0 + length vs)\<rparr>"
    have cell: "user_heap ?G info = user_heap g0 info"
      using old ne by simp
    have "ldm_user_update ?G info (user_real_name (entry_user env e))
        (user_home_directory (entry_user env e)) (user_image (entry_user env e))
        (user_logged_in (entry_user env e))
      = (user_heap g0 info \<noteq> entry_user env e, g1)"
    proof (cases "user_heap g0 info = entry_user env e")
      case True
      then have "g1 = ?G"
        using old ne by (simp add: assms(6) fun_upd_twist fun_upd_idem)
      with True show ?thesis
        unfolding ldm_user_update_def Let_def cell
        by simp
    next
      case False
      with same have "\<not> (user_real_name (user_heap g0 info) = user_real_name (entry_user env e)
        \<and> user_home_directory (user_heap g0 info) = user_home_directory (entry_user env e)
        \<and> user_image (user_heap g0 info) = user_image (entry_user env e)
        \<and> user_logged_in (user_heap g0 info) = user_logged_in (entry_user env e))"
        by simp
      with False show ?thesis
        unfolding ldm_user_update_def Let_def cell
        by (simp only: if_False upd) (simp add: assms(6))
    qed
    then show ?thesis
      by (simp add: new Let_def f fu ldm_user_get_name_def)
  qed
  finally show ?thesis .
qed

lemma cached_user_fresh:
  assumes "users_allocated g0" "cached_user g0 e = Some info" "pw_name e \<notin> pw_name ` set vs"
  shows "\<forall>e' \<in> set vs. cached_user g0 e' \<noteq> Some info"
proof
  fix e'
  assume "e' \<in> set vs"
  show "cached_user g0 e' \<noteq> Some info"
  proof
    assume "cached_user g0 e' = Some info"
    from cached_user_Some(3) [OF assms(1) this] cached_user_Some(3) [OF assms(1,2)]
    have "pw_name e' = pw_name e"
      by simp
    with \<open>e' \<in> set vs\<close> assms(3) show False
      by (metis imageI)
  qed
qed

lemma load_heap_new:
  assumes "users_allocated g0" "load_heap env g0 vs st" "\<not> hidden_entry env e"
    "cached_user g0 e = None"
  shows "load_heap env g0 (vs @ [e])
    (load_entry env (minimum_uid_of env) (hidden_users_of env) (hidden_shells_of env) e st)"
proof -
  let ?c = "user_count g0 + length vs"
  let ?g1 = "ls_greeter st\<lparr>user_heap := (user_heap (ls_greeter st)) (?c := entry_user env e),
               user_count := Suc ?c\<rparr>"
  note step = load_entry_new [OF assms refl]
  from assms(2) have frame: "ls_greeter st = g0\<lparr>user_heap := user_heap (ls_greeter st),
      user_count := ?c\<rparr>"
    and fresh: "\<forall>k < length vs. user_heap (ls_greeter st) (user_count g0 + k)
      = entry_user env (vs ! k)"
    and old: "\<forall>p < user_count g0.
            (\<forall>e \<in> set vs. cached_user g0 e = Some p
               \<longrightarrow> user_heap (ls_greeter st) p = entry_user env e)
            \<and> ((\<forall>e \<in> set vs. cached_user g0 e \<noteq> Some p)
               \<longrightarrow> user_heap (ls_greeter st) p = user_heap g0 p)"
    by (simp_all add: load_heap_def)
  have 1: "?g1 = g0\<lparr>user_heap := user_heap ?g1, user_count := user_count g0 + length (vs @ [e])\<rparr>"
    by (subst frame) simp
  have 2: "user_heap ?g1 (user_count g0 + k) = entry_user env ((vs @ [e]) ! k)"
    if "k < length (vs @ [e])" for k
    using that fresh by (cases "k = length vs") (simp_all add: nth_append)
  have 3: "(\<forall>e' \<in> set (vs @ [e]). cached_user g0 e' = Some p
               \<longrightarrow> user_heap ?g1 p = entry_user env e')
            \<and> ((\<forall>e' \<in> set (vs @ [e]). cached_user g0 e' \<noteq> Some p)
               \<longrightarrow> user_heap ?g1 p = user_heap g0 p)"
    if "p < user_count g0" for p
    using that old assms(4) by auto
  have "ls_greeter (load_entry env (minimum_uid_of env) (hidden_users_of env)
      (hidden_shells_of env) e st) = ?g1"
    by (simp add: step)
  with 1 2 3 show ?thesis
    unfolding load_heap_def by (simp only:) blast
qed

lemma load_heap_cached:
  assumes "users_allocated g0" "load_heap env g0 vs st" "\<not> hidden_entry env e"
    "cached_user g0 e = Some info" "pw_name e \<notin> pw_name ` set vs"
  shows "load_heap env g0 (vs @ [e])
    (load_entry env (minimum_uid_of env) (hidden_users_of env) (hidden_shells_of env) e st)"
proof -
  let ?c = "user_count g0 + length vs"
  let ?g1 = "ls_greeter st\<lparr>user_heap := (user_heap (ls_greeter st))
               (?c := entry_user env e, info := entry_user env e),
               user_count := Suc ?c\<rparr>"
  note step = load_entry_cached [OF assms refl]
  note c = cached_user_Some [OF assms(1,4)]
  note others = cached_user_fresh [OF assms(1,4,5)]
  from assms(2) have frame: "ls_greeter st = g0\<lparr>user_heap := user_heap (ls_greeter st),
      user_count := ?c\<rparr>"
    and fresh: "\<forall>k < length vs. user_heap (ls_greeter st) (user_count g0 + k)
      = entry_user env (vs ! k)"
    and old: "\<forall>p < user_count g0.
            (\<forall>e \<in> set vs. cached_user g0 e = Some p
               \<longrightarrow> user_heap (ls_greeter st) p = entry_user env e)
            \<and> ((\<forall>e \<in> set vs. cached_user g0 e \<noteq> Some p)
               \<longrightarrow> user_heap (ls_greeter st) p = user_heap g0 p)"
    by (simp_all add: load_heap_def)
  have 1: "?g1 = g0\<lparr>user_heap := user_heap ?g1, user_count := user_count g0 + length (vs @ [e])\<rparr>"
    by (subst frame) simp
  have 2: "user_heap ?g1 (user_count g0 + k) = entry_user env ((vs @ [e]) ! k)"
    if "k < length (vs @ [e])" for k
    using that fresh c(2) by (cases "k = length vs") (simp_all add: nth_append)
  have 3: "(\<forall>e' \<in> set (vs @ [e]). cached_user g0 e' = Some p
               \<longrightarrow> user_heap ?g1 p = entry_user env e')
            \<and> ((\<forall>e' \<in> set (vs @ [e]). cached_user g0 e' \<noteq> Some p)
               \<longrightarrow> user_heap ?g1 p = user_heap g0 p)"
    if "p < user_count g0" for p
  proof (cases "p = info")
    case True
    with others assms(4) show ?thesis
      by auto
  next
    case False
    with that old assms(4) show ?thesis
      by auto
  qed
  have "ls_greeter (load_entry env (minimum_uid_of env) (hidden_users_of env)
      (hidden_shells_of env) e st) = ?g1"
    by (simp add: step)
  with 1 2 3 show ?thesis
    unfolding load_heap_def by (simp only:) blast
qed

lemma load_lists_new:
  assumes "users_allocated g0" "load_heap env g0 vs st" "\<not> hidden_entry env e"
    "cached_user g0 e = None" "load_lists env g0 vs st"
  shows "load_lists env g0 (vs @ [e])
    (load_entry env (minimum_uid_of env) (hidden_users_of env) (hidden_shells_of env) e st)"
proof -
  let ?c = "user_count g0 + length vs"
  let ?N = "\<lambda>vs. {user_count g0 + k | k. k < length vs \<and> cached_user g0 (vs ! k) = None}"
  let ?st = "load_entry env (minimum_uid_of env) (hidden_users_of env) (hidden_shells_of env)
    e st"
  note step = load_entry_new [OF assms(1-4) refl]
  obtain cmp where u: "ls_users ?st = g_list_insert_sorted (ls_users st) ?c cmp"
    and n: "ls_new_users ?st = (if have_users g0
              then g_list_insert_sorted (ls_new_users st) ?c cmp else ls_new_users st)"
    and ch: "ls_changed_users ?st = ls_changed_users st"
    by (simp add: step)
  have N: "?N (vs @ [e]) = insert ?c (?N vs)"
  proof (intro set_eqI iffI)
    fix p
    assume "p \<in> ?N (vs @ [e])"
    then obtain k where k: "p = user_count g0 + k" "k < Suc (length vs)"
      "cached_user g0 ((vs @ [e]) ! k) = None"
      by auto
    then show "p \<in> insert ?c (?N vs)"
      by (cases "k = length vs") (auto simp: nth_append)
  next
    fix p
    assume "p \<in> insert ?c (?N vs)"
    then consider "p = ?c" | k where "p = user_count g0 + k" "k < length vs"
      "cached_user g0 (vs ! k) = None"
      by auto
    then show "p \<in> ?N (vs @ [e])"
    proof cases
      case 1
      with assms(4) show ?thesis
        by (auto intro!: exI [of _ "length vs"])
    next
      case 2
      then show ?thesis
        by (auto intro!: exI [of _ k] simp: nth_append)
    qed
  qed
  have C: "{p. \<exists>e' \<in> set (vs @ [e]). cached_user g0 e' = Some p \<and> Q p e'}
      = {p. \<exists>e' \<in> set vs. cached_user g0 e' = Some p \<and> Q p e'}" for Q
    using assms(4) by auto
  have notin: "?c \<notin> ?N vs" "?c \<notin> {p. \<exists>e' \<in> set vs. cached_user g0 e' = Some p}"
    using cached_user_Some(2) [OF assms(1)] by auto
  from assms(5) have l: "distinct (ls_users st)"
    "set (ls_users st) = {p. \<exists>e \<in> set vs. cached_user g0 e = Some p} \<union> ?N vs"
    "distinct (ls_new_users st)"
    "set (ls_new_users st) = (if have_users g0 then ?N vs else {})"
    "distinct (ls_changed_users st)"
    "set (ls_changed_users st) = {p. \<exists>e \<in> set vs. cached_user g0 e = Some p
                  \<and> user_heap g0 p \<noteq> entry_user env e}"
    by (simp_all add: load_lists_def)
  have 1: "distinct (ls_users ?st)"
    unfolding u using l(1,2) notin by (intro distinct_g_list_insert_sorted) auto
  have 2: "set (ls_users ?st) = {p. \<exists>e \<in> set (vs @ [e]). cached_user g0 e = Some p}
      \<union> ?N (vs @ [e])"
    unfolding u N using C [of "\<lambda>p e. True"] l(2) by simp
  have 3: "distinct (ls_new_users ?st)"
    unfolding n using l(3,4) notin by (auto intro: distinct_g_list_insert_sorted)
  have 4: "set (ls_new_users ?st) = (if have_users g0 then ?N (vs @ [e]) else {})"
    unfolding n N using l(4) by simp
  have 5: "distinct (ls_changed_users ?st)"
    unfolding ch by (rule l(5))
  have 6: "set (ls_changed_users ?st) = {p. \<exists>e' \<in> set (vs @ [e]). cached_user g0 e' = Some p
                  \<and> user_heap g0 p \<noteq> entry_user env e'}"
    unfolding ch l(6) using C [of "\<lambda>p e. user_heap g0 p \<noteq> entry_user env e"] by simp
  from 1 2 3 4 5 6 show ?thesis
    unfolding load_lists_def by (intro conjI)
qed

lemma load_lists_cached:
  assumes "users_allocated g0" "load_heap env g0 vs st" "\<not> hidden_entry env e"
    "cached_user g0 e = Some info" "pw_name e \<notin> pw_name ` set vs" "load_lists env g0 vs st"
  shows "load_lists env g0 (vs @ [e])
    (load_entry env (minimum_uid_of env) (hidden_users_of env) (hidden_shells_of env) e st)"
proof -
  let ?N = "\<lambda>vs. {user_count g0 + k | k. k < length vs \<and> cached_user g0 (vs ! k) = None}"
  let ?st = "load_entry env (minimum_uid_of env) (hidden_users_of env) (hidden_shells_of env)
    e st"
  note step = load_entry_cached [OF assms(1-5) refl]
  note c = cached_user_Some [OF assms(1,4)]
  note others = cached_user_fresh [OF assms(1,4,5)]
  obtain cmp where u: "ls_users ?st = g_list_insert_sorted (ls_users st) info cmp"
    and n: "ls_new_users ?st = ls_new_users st"
    and ch: "ls_changed_users ?st = (if user_heap g0 info \<noteq> entry_user env e
              then g_list_insert_sorted (ls_changed_users st) info cmp
              else ls_changed_users st)"
    by (simp add: step)
  have N: "?N (vs @ [e]) = ?N vs"
  proof (intro set_eqI iffI)
    fix p
    assume "p \<in> ?N (vs @ [e])"
    then obtain k where k: "p = user_count g0 + k" "k < Suc (length vs)"
      "cached_user g0 ((vs @ [e]) ! k) = None"
      by auto
    with assms(4) show "p \<in> ?N vs"
      by (cases "k = length vs") (auto simp: nth_append)
  next
    fix p
    assume "p \<in> ?N vs"
    then obtain k where "p = user_count g0 + k" "k < length vs"
      "cached_user g0 (vs ! k) = None"
      by auto
    then show "p \<in> ?N (vs @ [e])"
      by (auto intro!: exI [of _ k] simp: nth_append)
  qed
  have C: "{p. \<exists>e' \<in> set (vs @ [e]). cached_user g0 e' = Some p \<and> Q p e'}
      = (if Q info e then insert info {p. \<exists>e' \<in> set vs. cached_user g0 e' = Some p \<and> Q p e'}
         else {p. \<exists>e' \<in> set vs. cached_user g0 e' = Some p \<and> Q p e'})" for Q
    using assms(4) by auto
  have notin: "info \<notin> ?N vs" "info \<notin> {p. \<exists>e' \<in> set vs. cached_user g0 e' = Some p \<and> Q p e'}"
    for Q
    using c(2) others by auto
  from assms(6) have l: "distinct (ls_users st)"
    "set (ls_users st) = {p. \<exists>e \<in> set vs. cached_user g0 e = Some p} \<union> ?N vs"
    "distinct (ls_new_users st)"
    "set (ls_new_users st) = (if have_users g0 then ?N vs else {})"
    "distinct (ls_changed_users st)"
    "set (ls_changed_users st) = {p. \<exists>e \<in> set vs. cached_user g0 e = Some p
                  \<and> user_heap g0 p \<noteq> entry_user env e}"
    by (simp_all add: load_lists_def)
  have 1: "distinct (ls_users ?st)"
    unfolding u using l(1,2) notin(1) notin(2) [of "\<lambda>p e. True"]
    by (intro distinct_g_list_insert_sorted) auto
  have 2: "set (ls_users ?st) = {p. \<exists>e \<in> set (vs @ [e]). cached_user g0 e = Some p}
      \<union> ?N (vs @ [e])"
    unfolding u N using C [of "\<lambda>p e. True"] l(2) by simp
  have 3: "distinct (ls_new_users ?st)"
    unfolding n by (rule l(3))
  have 4: "set (ls_new_users ?st) = (if have_users g0 then ?N (vs @ [e]) else {})"
    unfolding n N by (rule l(4))
  have 5: "distinct (ls_changed_users ?st)"
    unfolding ch using l(5,6) notin(2) [of "\<lambda>p e. user_heap g0 p \<noteq> entry_user env e"]
    by (auto intro: distinct_g_list_insert_sorted)
  have 6: "set (ls_changed_users ?st) = {p. \<exists>e' \<in> set (vs @ [e]). cached_user g0 e' = Some p
                  \<and> user_heap g0 p \<noteq> entry_user env e'}"
    unfolding ch using l(6) C [of "\<lambda>p e. user_heap g0 p \<noteq> entry_user env e"] by simp
  from 1 2 3 4 5 6 show ?thesis
    unfolding load_lists_def by (intro conjI)
qed

lemma load_sorted_new:
  assumes "users_allocated g0" "load_heap env g0 vs st" "\<not> hidden_entry env e"
    "cached_user g0 e = None" "load_lists env g0 vs st" "load_sorted st"
  shows "load_sorted
    (load_entry env (minimum_uid_of env) (hidden_users_of env) (hidden_shells_of env) e st)"
proof -
  let ?c = "user_count g0 + length vs"
  let ?g1 = "ls_greeter st\<lparr>user_heap := (user_heap (ls_greeter st)) (?c := entry_user env e),
               user_count := Suc ?c\<rparr>"
  let ?st = "load_entry env (minimum_uid_of env) (hidden_users_of env) (hidden_shells_of env)
    e st"
  let ?le = "\<lambda>g a b. compare_user g a b \<le> 0"
  note step = load_entry_new [OF assms(1-4) refl]
  have g: "ls_greeter ?st = ?g1"
    and n: "ls_new_users ?st = (if have_users g0
              then g_list_insert_sorted (ls_new_users st) ?c (compare_user ?g1)
              else ls_new_users st)"
    and ch: "ls_changed_users ?st = ls_changed_users st"
    by (simp_all add: step)
  from assms(5) have l: "set (ls_new_users st) \<subseteq> {user_count g0 + k | k. k < length vs}"
    "set (ls_changed_users st) \<subseteq> {p. \<exists>e \<in> set vs. cached_user g0 e = Some p}"
    by (auto simp: load_lists_def split: if_splits)
  have "\<forall>p \<in> set (ls_new_users st). user_heap ?g1 p = user_heap (ls_greeter st) p"
    using l(1) by auto
  from sorted_compare_user_cong [OF this] assms(6)
  have sn: "sorted_wrt (?le ?g1) (ls_new_users st)"
    by (simp add: load_sorted_def)
  have "\<forall>p \<in> set (ls_changed_users st). user_heap ?g1 p = user_heap (ls_greeter st) p"
    using l(2) cached_user_Some(2) [OF assms(1)] by auto
  from sorted_compare_user_cong [OF this] assms(6)
  have sc: "sorted_wrt (?le ?g1) (ls_changed_users st)"
    by (simp add: load_sorted_def)
  from sn sc sorted_g_list_insert_sorted [OF sn, of ?c] show ?thesis
    unfolding load_sorted_def g n ch by simp
qed

lemma load_sorted_cached:
  assumes "users_allocated g0" "load_heap env g0 vs st" "\<not> hidden_entry env e"
    "cached_user g0 e = Some info" "pw_name e \<notin> pw_name ` set vs"
    "load_lists env g0 vs st" "load_sorted st"
  shows "load_sorted
    (load_entry env (minimum_uid_of env) (hidden_users_of env) (hidden_shells_of env) e st)"
proof -
  let ?c = "user_count g0 + length vs"
  let ?g1 = "ls_greeter st\<lparr>user_heap := (user_heap (ls_greeter st))
               (?c := entry_user env e, info := entry_user env e),
               user_count := Suc ?c\<rparr>"
  let ?st = "load_entry env (minimum_uid_of env) (hidden_users_of env) (hidden_shells_of env)
    e st"
  let ?le = "\<lambda>g a b. compare_user g a b \<le> 0"
  note step = load_entry_cached [OF assms(1-5) refl]
  note c = cached_user_Some [OF assms(1,4)]
  note others = cached_user_fresh [OF assms(1,4,5)]
  have g: "ls_greeter ?st = ?g1"
    and n: "ls_new_users ?st = ls_new_users st"
    and ch: "ls_changed_users ?st = (if user_heap g0 info \<noteq> entry_user env e
              then g_list_insert_sorted (ls_changed_users st) info (compare_user ?g1)
              else ls_changed_users st)"
    by (simp_all add: step)
  from assms(6) have l: "set (ls_new_users st) \<subseteq> {user_count g0 + k | k. k < length vs}"
    "set (ls_changed_users st) \<subseteq> {p. \<exists>e \<in> set vs. cached_user g0 e = Some p}"
    by (auto simp: load_lists_def split: if_splits)
  have "\<forall>p \<in> set (ls_new_users st). user_heap ?g1 p = user_heap (ls_greeter st) p"
    using l(1) c(2) by auto
  from sorted_compare_user_cong [OF this] assms(7)
  have sn: "sorted_wrt (?le ?g1) (ls_new_users st)"
    by (simp add: load_sorted_def)
  have "\<forall>p \<in> set (ls_changed_users st). user_heap ?g1 p = user_heap (ls_greeter st) p"
  proof
    fix p
    assume "p \<in> set (ls_changed_users st)"
    with l(2) obtain e' where e': "e' \<in> set vs" "cached_user g0 e' = Some p"
      by auto
    with others have "p \<noteq> info"
      by auto
    moreover from cached_user_Some(2) [OF assms(1) e'(2)] have "p \<noteq> ?c"
      by simp
    ultimately show "user_heap ?g1 p = user_heap (ls_greeter st) p"
      by simp
  qed
  from sorted_compare_user_cong [OF this] assms(7)
  have sc: "sorted_wrt (?le ?g1) (ls_changed_users st)"
    by (simp add: load_sorted_def)
  from sn sc sorted_g_list_insert_sorted [OF sc, of info] show ?thesis
    unfolding load_sorted_def g n ch by simp
qed

lemma load_invariant_step:
  assumes "users_allocated g0" "load_invariant env g0 vs st" "\<not> hidden_entry env e"
    "pw_name e \<notin> pw_name ` set vs"
  shows "load_invariant env g0 (vs @ [e])
    (load_entry env (minimum_uid_of env) (hidden_users_of env) (hidden_shells_of env) e st)"
proof -
  from assms(2) have h: "load_heap env g0 vs st" and l: "load_lists env g0 vs st"
    and s: "load_sorted st"
    by (simp_all add: load_invariant_def)
  show ?thesis
  proof (cases "cached_user g0 e")
    case None
    from load_heap_new [OF assms(1) h assms(3) None]
      load_lists_new [OF assms(1) h assms(3) None l]
      load_sorted_new [OF assms(1) h assms(3) None l s]
    show ?thesis
      by (simp add: load_invariant_def)
  next
    case (Some info)
    from load_heap_cached [OF assms(1) h assms(3) Some assms(4)]
      load_lists_cached [OF assms(1) h assms(3) Some assms(4) l]
      load_sorted_cached [OF assms(1) h assms(3) Some assms(4) l s]
    show ?thesis
      by (simp add: load_invariant_def)
  qed
qed

lemma load_entries_invariant:
  assumes "users_allocated g0"
    and "load_invariant env g0 (filter (\<lambda>e. \<not> hidden_entry env e) ds) st"
    and "distinct (map pw_name (filter (\<lambda>e. \<not> hidden_entry env e) (ds @ es)))"
  shows "load_invariant env g0 (filter (\<lambda>e. \<not> hidden_entry env e) (ds @ es))
    (load_entries env (minimum_uid_of env) (hidden_users_of env) (hidden_shells_of env) es st)"
  using assms(2,3)
proof (induction es arbitrary: ds st)
  case Nil
  then show ?case by simp
next
  case (Cons e es)
  let ?st = "load_entry env (minimum_uid_of env) (hidden_users_of env) (hidden_shells_of env)
    e st"
  have "load_invariant env g0 (filter (\<lambda>e. \<not> hidden_entry env e) (ds @ [e])) ?st"
  proof (cases "hidden_entry env e")
    case True
    with Cons.prems(1) show ?thesis
      by (simp add: load_entry_hidden)
  next
    case False
    from Cons.prems(2) False
    have "pw_name e \<notin> pw_name ` set (filter (\<lambda>e. \<not> hidden_entry env e) ds)"
      by auto
    from load_invariant_step [OF assms(1) Cons.prems(1) False this] False show ?thesis
      by simp
  qed
  from Cons.IH [OF this] Cons.prems(2) show ?case
    by simp
qed

lemma load_invariant_init:
  "load_invariant env g0 []
     \<lparr>ls_greeter = g0, ls_users = [], ls_new_users = [], ls_changed_users = []\<rparr>"
  by (simp add: load_invariant_def load_heap_def load_lists_def load_sorted_def)

lemma concat_map_emit:
  "concat (map (\<lambda>info. g_signal_emit greeter (f info)) xs) = map (\<lambda>info. (f info, greeter)) xs"
  by (induction xs) (simp_all add: g_signal_emit_def)

lemma concat_map_removed:
  "concat (map (\<lambda>info. if list_ex (\<lambda>new_link. new_link = info) ys then []
                         else g_signal_emit greeter (f info)) xs)
   = map (\<lambda>info. (f info, greeter)) (filter (\<lambda>info. info \<notin> set ys) xs)"
  by (induction xs) (auto simp: g_signal_emit_def list_ex_iff)

lemma load_users_eq:
  assumes "users_allocated g0" "distinct (map pw_name (visible_entries env))"
  shows "\<exists>st. load_invariant env g0 (visible_entries env) st
    \<and> load_users env g0
      = ((ls_greeter st)\<lparr>users := ls_users st\<rparr>,
         map (\<lambda>info. (USER_ADDED info, (ls_greeter st)\<lparr>users := ls_users st\<rparr>))
           (ls_new_users st)
         @ map (\<lambda>info. (USER_CHANGED info, (ls_greeter st)\<lparr>users := ls_users st\<rparr>))
             (ls_changed_users st)
         @ map (\<lambda>info. (USER_REMOVED info, (ls_greeter st)\<lparr>users := ls_users st\<rparr>))
             (filter (\<lambda>info. info \<notin> set (ls_users st)) (users g0)))"
proof -
  let ?st = "load_entries env (minimum_uid_of env) (hidden_users_of env) (hidden_shells_of env)
    (passwd_entries env)
    \<lparr>ls_greeter = g0, ls_users = [], ls_new_users = [], ls_changed_users = []\<rparr>"
  from load_entries_invariant [OF assms(1), of env "[]" _ "passwd_entries env"]
    load_invariant_init [of env g0] assms(2)
  have inv: "load_invariant env g0 (visible_entries env) ?st"
    by (simp add: visible_entries_def)
  then have "load_heap env g0 (visible_entries env) ?st"
    by (simp add: load_invariant_def)
  then have "users (ls_greeter ?st) = users g0"
    by (rule load_heap_fields)
  then have "load_users env g0
      = ((ls_greeter ?st)\<lparr>users := ls_users ?st\<rparr>,
         map (\<lambda>info. (USER_ADDED info, (ls_greeter ?st)\<lparr>users := ls_users ?st\<rparr>))
           (ls_new_users ?st)
         @ map (\<lambda>info. (USER_CHANGED info, (ls_greeter ?st)\<lparr>users := ls_users ?st\<rparr>))
             (ls_changed_users ?st)
         @ map (\<lambda>info. (USER_REMOVED info, (ls_greeter ?st)\<lparr>users := ls_users ?st\<rparr>))
             (filter (\<lambda>info. info \<notin> set (ls_users ?st)) (users g0)))"
    unfolding load_users_def Let_def
    by (simp add: concat_map_emit concat_map_removed minimum_uid_of_def hidden_users_of_def
        hidden_shells_of_def)
  with inv show ?thesis
    by blast
qed

lemma compare_user_users [simp]:
  "compare_user (greeter\<lparr>users := us\<rparr>) = compare_user greeter"
  by (simp add: compare_user_def fun_eq_iff)












lemma entry_user_passwd_entries [simp]:
  "entry_user (env\<lparr>passwd_entries := es\<rparr>) = entry_user env"
  by (simp add: entry_user_def fun_eq_iff)

lemma config_passwd_entries [simp]:
  "minimum_uid_of (env\<lparr>passwd_entries := es\<rparr>) = minimum_uid_of env"
  "hidden_users_of (env\<lparr>passwd_entries := es\<rparr>) = hidden_users_of env"
  "hidden_shells_of (env\<lparr>passwd_entries := es\<rparr>) = hidden_shells_of env"
  by (simp_all add: minimum_uid_of_def hidden_users_of_def hidden_shells_of_def)

lemma hidden_entry_passwd_entries [simp]:
  "hidden_entry (env\<lparr>passwd_entries := es\<rparr>) = hidden_entry env"
  unfolding hidden_entry_def fun_eq_iff config_passwd_entries by simp

lemma visible_entries_all:
  assumes "\<forall>e \<in> set es. \<not> hidden_entry env e"
  shows "visible_entries (env\<lparr>passwd_entries := es\<rparr>) = es"
  using assms by (simp add: visible_entries_def)

lemma distinct_singleton:
  assumes "distinct xs" "set xs = {x}"
  shows "xs = [x]"
proof (cases xs)
  case Nil
  with assms(2) show ?thesis by simp
next
  case (Cons y ys)
  with assms have "y = x" "set ys \<subseteq> {x}" "x \<notin> set ys"
    by auto
  then have "ys = []"
    by (cases ys) auto
  with Cons \<open>y = x\<close> show ?thesis
    by simp
qed

lemma filter_singleton:
  assumes "distinct xs" "x \<in> set xs" "\<forall>y \<in> set xs. P y \<longleftrightarrow> y = x"
  shows "filter P xs = [x]"
proof (rule distinct_singleton)
  show "distinct (filter P xs)"
    using assms(1) by simp
  show "set (filter P xs) = {x}"
    using assms(2,3) by auto
qed

lemma users_allocated_init: "users_allocated ldm_greeter_init"
  by (simp add: users_allocated_def ldm_greeter_init_def)

lemma cached_user_init [simp]: "cached_user ldm_greeter_init e = None"
  by (simp add: cached_user_def ldm_greeter_init_def)

lemma baseline_load:
  assumes "distinct (map pw_name A)" "\<forall>e \<in> set A. \<not> hidden_entry env e"
  shows "\<exists>g1. update_users (env\<lparr>passwd_entries := A\<rparr>) ldm_greeter_init = (g1, [])
    \<and> have_users g1 \<and> user_count g1 = length A
    \<and> distinct (users g1) \<and> set (users g1) = {..<length A}
    \<and> (\<forall>k < length A. user_heap g1 k = entry_user env (A ! k))"
proof -
  let ?env = "env\<lparr>passwd_entries := A\<rparr>"
  note vis = visible_entries_all [OF assms(2)]
  from load_users_eq [OF users_allocated_init, of ?env] assms(1) vis obtain st
    where inv: "load_invariant ?env ldm_greeter_init A st"
      and eq: "load_users ?env ldm_greeter_init
      = ((ls_greeter st)\<lparr>users := ls_users st\<rparr>,
         map (\<lambda>info. (USER_ADDED info, (ls_greeter st)\<lparr>users := ls_users st\<rparr>))
           (ls_new_users st)
         @ map (\<lambda>info. (USER_CHANGED info, (ls_greeter st)\<lparr>users := ls_users st\<rparr>))
             (ls_changed_users st)
         @ map (\<lambda>info. (USER_REMOVED info, (ls_greeter st)\<lparr>users := ls_users st\<rparr>))
             (filter (\<lambda>info. info \<notin> set (ls_users st)) (users ldm_greeter_init)))"
    by auto
  from inv have h: "load_heap ?env ldm_greeter_init A st"
    and l: "load_lists ?env ldm_greeter_init A st"
    by (simp_all add: load_invariant_def)
  have z: "user_count ldm_greeter_init = 0" "users ldm_greeter_init = []"
    "\<not> have_users ldm_greeter_init"
    by (simp_all add: ldm_greeter_init_def)
  from l z have new: "ls_new_users st = []" and changed: "ls_changed_users st = []"
    and us: "distinct (ls_users st)" "set (ls_users st) = {..<length A}"
    by (auto simp: load_lists_def)
  from h z have cells: "\<forall>k < length A. user_heap (ls_greeter st) k = entry_user env (A ! k)"
    by (simp add: load_heap_def)
  from load_heap_fields(3) [OF h] z have count: "user_count (ls_greeter st) = length A"
    by simp
  have "update_users ?env ldm_greeter_init
      = ((ls_greeter st)\<lparr>users := ls_users st, have_users := True\<rparr>, [])"
    by (simp add: update_users_def z eq new changed)
  with us cells count show ?thesis
    by simp
qed

lemma cached_user_loaded:
  assumes "distinct (map pw_name A)" "distinct (users g1)" "set (users g1) = {..<length A}"
    "\<forall>k < length A. user_heap g1 k = entry_user env (A ! k)"
  shows "k < length A \<Longrightarrow> pw_name e = pw_name (A ! k) \<Longrightarrow> cached_user g1 e = Some k"
    and "pw_name e \<notin> pw_name ` set A \<Longrightarrow> cached_user g1 e = None"
proof -
  have nm: "user_name (user_heap g1 p) = pw_name (A ! p)" if "p < length A" for p
    using that assms(4) by simp
  have "inj_on (\<lambda>p. user_name (user_heap g1 p)) (set (users g1))"
  proof (rule inj_onI)
    fix p q
    assume "p \<in> set (users g1)" "q \<in> set (users g1)"
      "user_name (user_heap g1 p) = user_name (user_heap g1 q)"
    with assms(3) nm have "p < length A" "q < length A" "map pw_name A ! p = map pw_name A ! q"
      by simp_all
    with assms(1) show "p = q"
      by (simp add: nth_eq_iff_index_eq del: nth_map)
  qed
  with assms(2) have d: "distinct (map (\<lambda>p. user_name (user_heap g1 p)) (users g1))"
    by (simp add: distinct_map)
  show "cached_user g1 e = Some k" if "k < length A" "pw_name e = pw_name (A ! k)"
    using find_user_distinct [OF d, of k] that assms(3) nm [of k]
    by (simp add: cached_user_def)
  show "cached_user g1 e = None" if "pw_name e \<notin> pw_name ` set A"
    unfolding cached_user_def find_user_None
  proof
    fix p
    assume "p \<in> set (users g1)"
    with assms(3) have "p < length A"
      by simp
    with that nm [of p] show "user_name (user_heap g1 p) \<noteq> pw_name e"
      by (metis imageI nth_mem)
  qed
qed

text \<open>
  C5, amended. Load a baseline \<open>A\<close> of visible accounts with distinct names into a new
  greeter, then reload with the database \<open>B\<close>, which is \<open>A\<close> with the record \<open>c\<close> replaced by
  \<open>c'\<close> (same name, another home directory), the record \<open>r\<close> removed and the record \<open>d\<close> with
  a new name added. The baseline load emits no signal; the second load emits exactly
  three, in this order: USER_ADDED for the new user of \<open>d\<close>, USER_CHANGED for the user of
  \<open>c\<close>, now with the fields of \<open>c'\<close>, and USER_REMOVED for the user of \<open>r\<close>.
\<close>

theorem reload_notifications:
  assumes dA: "distinct (map pw_name A)" and dB: "distinct (map pw_name B)"
    and vis: "\<forall>e \<in> set A \<union> set B. \<not> hidden_entry env e"
    and c: "c \<in> set A" and r: "r \<in> set A" and cr: "c \<noteq> r"
    and c': "pw_name c' = pw_name c" "pw_dir c' \<noteq> pw_dir c"
    and d: "pw_name d \<notin> pw_name ` set A"
    and B: "set B = (set A - {c, r}) \<union> {c', d}"
  shows "\<exists>g1 g2 added changed removed.
      update_users (env\<lparr>passwd_entries := A\<rparr>) ldm_greeter_init = (g1, [])
    \<and> load_users (env\<lparr>passwd_entries := B\<rparr>) g1
        = (g2, [(USER_ADDED added, g2), (USER_CHANGED changed, g2), (USER_REMOVED removed, g2)])
    \<and> user_heap g2 added = entry_user env d
    \<and> user_heap g2 changed = entry_user env c'
    \<and> user_name (user_heap g2 removed) = pw_name r"
proof -
  let ?envB = "env\<lparr>passwd_entries := B\<rparr>"
  let ?n = "length A"
  from vis have visA: "\<forall>e \<in> set A. \<not> hidden_entry env e"
    and visB: "\<forall>e \<in> set B. \<not> hidden_entry env e"
    by auto
  from baseline_load [OF dA visA] obtain g1
    where g1: "update_users (env\<lparr>passwd_entries := A\<rparr>) ldm_greeter_init = (g1, [])"
      "have_users g1" "user_count g1 = ?n" "distinct (users g1)"
      "set (users g1) = {..<?n}" "\<forall>k < ?n. user_heap g1 k = entry_user env (A ! k)"
    by blast
  note cached = cached_user_loaded [OF dA g1(4,5,6)]
  have alloc: "users_allocated g1"
    using g1(3,5) by (simp add: users_allocated_def list_all_iff)
  have injA: "x = y" if "x \<in> set A" "y \<in> set A" "pw_name x = pw_name y" for x y
    using dA that by (auto simp: distinct_map dest: inj_onD)
  have injB: "i = j" if "i < length B" "j < length B" "B ! i = B ! j" for i j
    using dB that by (auto simp: distinct_map nth_eq_iff_index_eq)
  from c r obtain kc kr where kc: "kc < ?n" "A ! kc = c" and kr: "kr < ?n" "A ! kr = r"
    by (auto simp: in_set_conv_nth)
  from B have "d \<in> set B"
    by simp
  then obtain jd where jd: "jd < length B" "B ! jd = d"
    by (auto simp: in_set_conv_nth)
  have cached_d: "cached_user g1 d = None"
    using d by (rule cached(2))
  have cached_c': "cached_user g1 c' = Some kc"
    using kc c'(1) by (intro cached(1)) simp_all
  have cached_A: "cached_user g1 (A ! k) = Some k" if "k < ?n" for k
    using that by (intro cached(1)) simp_all
  have cases_B: "e = c' \<or> e = d \<or> (e \<in> set A \<and> e \<noteq> c \<and> e \<noteq> r)" if "e \<in> set B" for e
    using that B by auto
  from load_users_eq [OF alloc, of ?envB] dB visible_entries_all [OF visB] obtain st
    where inv: "load_invariant ?envB g1 B st"
      and eq: "load_users ?envB g1
      = ((ls_greeter st)\<lparr>users := ls_users st\<rparr>,
         map (\<lambda>info. (USER_ADDED info, (ls_greeter st)\<lparr>users := ls_users st\<rparr>))
           (ls_new_users st)
         @ map (\<lambda>info. (USER_CHANGED info, (ls_greeter st)\<lparr>users := ls_users st\<rparr>))
             (ls_changed_users st)
         @ map (\<lambda>info. (USER_REMOVED info, (ls_greeter st)\<lparr>users := ls_users st\<rparr>))
             (filter (\<lambda>info. info \<notin> set (ls_users st)) (users g1)))"
    by auto
  from inv have h: "load_heap ?envB g1 B st" and l: "load_lists ?envB g1 B st"
    by (simp_all add: load_invariant_def)
  from l g1(2,3) have lists: "distinct (ls_users st)"
    "set (ls_users st) = {p. \<exists>e \<in> set B. cached_user g1 e = Some p}
       \<union> {?n + j | j. j < length B \<and> cached_user g1 (B ! j) = None}"
    "distinct (ls_new_users st)"
    "set (ls_new_users st) = {?n + j | j. j < length B \<and> cached_user g1 (B ! j) = None}"
    "distinct (ls_changed_users st)"
    "set (ls_changed_users st) = {p. \<exists>e \<in> set B. cached_user g1 e = Some p
       \<and> user_heap g1 p \<noteq> entry_user env e}"
    by (simp_all add: load_lists_def)
  have none: "cached_user g1 (B ! j) = None \<longleftrightarrow> j = jd" if "j < length B" for j
  proof
    assume n: "cached_user g1 (B ! j) = None"
    from that have "B ! j \<in> set B"
      by simp
    from cases_B [OF this] n cached_c' have "B ! j = d \<or> B ! j \<in> set A"
      by auto
    moreover have "cached_user g1 (B ! j) \<noteq> None" if "B ! j \<in> set A"
    proof -
      from that obtain k where "k < ?n" "A ! k = B ! j"
        by (auto simp: in_set_conv_nth)
      with cached_A [of k] show ?thesis
        by simp
    qed
    ultimately have "B ! j = d"
      using n by auto
    with injB [OF that jd(1)] jd(2) show "j = jd"
      by simp
  next
    assume "j = jd"
    with jd(2) cached_d show "cached_user g1 (B ! j) = None"
      by simp
  qed
  have "set (ls_new_users st) = {?n + jd}"
    unfolding lists(4) using none jd(1) by auto
  with lists(3) have new: "ls_new_users st = [?n + jd]"
    by (rule distinct_singleton)
  have differs: "user_heap g1 kc \<noteq> entry_user env c'"
  proof
    assume "user_heap g1 kc = entry_user env c'"
    with g1(6) kc have "entry_user env c = entry_user env c'"
      by simp
    then have "user_home_directory (entry_user env c) = user_home_directory (entry_user env c')"
      by simp
    with c'(2) show False
      by (simp add: entry_user_def)
  qed
  have "set (ls_changed_users st) = {kc}"
    unfolding lists(6)
  proof (intro set_eqI iffI)
    fix p
    assume "p \<in> {p. \<exists>e \<in> set B. cached_user g1 e = Some p
       \<and> user_heap g1 p \<noteq> entry_user env e}"
    then obtain e where e: "e \<in> set B" "cached_user g1 e = Some p"
      "user_heap g1 p \<noteq> entry_user env e"
      by blast
    from cases_B [OF e(1)] show "p \<in> {kc}"
    proof (elim disjE conjE)
      assume "e = c'"
      with e(2) cached_c' show ?thesis by simp
    next
      assume "e = d"
      with e(2) cached_d show ?thesis by simp
    next
      assume "e \<in> set A"
      then obtain k where k: "k < ?n" "A ! k = e"
        by (auto simp: in_set_conv_nth)
      with cached_A [of k] e(2) have "p = k"
        by simp
      with k g1(6) e(3) show ?thesis
        by simp
    qed
  next
    fix p
    assume "p \<in> {kc}"
    with B cached_c' differs
    show "p \<in> {p. \<exists>e \<in> set B. cached_user g1 e = Some p
       \<and> user_heap g1 p \<noteq> entry_user env e}"
      by auto
  qed
  with lists(5) have changed: "ls_changed_users st = [kc]"
    by (rule distinct_singleton)
  have kept: "p \<notin> set (ls_users st) \<longleftrightarrow> p = kr" if "p \<in> set (users g1)" for p
  proof -
    from that g1(5) have p: "p < ?n"
      by simp
    then have fresh: "p \<notin> {?n + j | j. j < length B \<and> cached_user g1 (B ! j) = None}"
      by auto
    show ?thesis
    proof
      assume "p = kr"
      have "cached_user g1 e \<noteq> Some kr" if "e \<in> set B" for e
      proof
        assume "cached_user g1 e = Some kr"
        from cached_user_Some(3) [OF alloc this] g1(6) kr have nm: "pw_name e = pw_name r"
          by simp
        from cases_B [OF that] show False
        proof (elim disjE conjE)
          assume "e = c'"
          with nm c'(1) injA [OF c r] cr show False by simp
        next
          assume "e = d"
          with nm d r show False by (metis imageI)
        next
          assume "e \<in> set A" "e \<noteq> r"
          with nm injA [OF _ r] show False by blast
        qed
      qed
      with \<open>p = kr\<close> fresh show "p \<notin> set (ls_users st)"
        unfolding lists(2) by blast
    next
      assume notin: "p \<notin> set (ls_users st)"
      show "p = kr"
      proof (rule ccontr)
        assume "p \<noteq> kr"
        then have "A ! p \<noteq> r"
          using dA p kr by (metis injA nth_mem nth_eq_iff_index_eq distinct_map)
        show False
        proof (cases "A ! p = c")
          case True
          with kc dA p have "p = kc"
            by (metis nth_eq_iff_index_eq distinct_map)
          with cached_c' B notin show False
            unfolding lists(2) by auto
        next
          case False
          with \<open>A ! p \<noteq> r\<close> p B have "A ! p \<in> set B"
            by simp
          with cached_A [OF p] notin show False
            unfolding lists(2) by blast
        qed
      qed
    qed
  qed
  have "kr \<in> set (users g1)"
    using kr(1) g1(5) by simp
  with g1(4) kept have removed: "filter (\<lambda>info. info \<notin> set (ls_users st)) (users g1) = [kr]"
    by (intro filter_singleton) auto
  let ?g2 = "(ls_greeter st)\<lparr>users := ls_users st\<rparr>"
  from h jd g1(3) have "user_heap ?g2 (?n + jd) = entry_user env d"
    by (simp add: load_heap_def)
  moreover from h kc(1) g1(3) cached_c' B have "user_heap ?g2 kc = entry_user env c'"
    by (simp add: load_heap_def)
  moreover from load_heap_names [OF alloc h, of kr] kr g1(3,6)
  have "user_name (user_heap ?g2 kr) = pw_name r"
    by simp
  moreover have "load_users ?envB g1 = (?g2, [(USER_ADDED (?n + jd), ?g2),
      (USER_CHANGED kc, ?g2), (USER_REMOVED kr, ?g2)])"
    unfolding eq new changed removed by simp
  ultimately show ?thesis
    using g1(1) by blast
qed

theorem reload_notifications_witness:
  "distinct (map pw_name baseline) \<and> distinct (map pw_name reloaded)
   \<and> list_all (\<lambda>e. \<not> hidden_entry (accounts []) e) (baseline @ reloaded)
   \<and> set reloaded
       = (set baseline - {account ''alice'' 1000 ''Alice'' ''/home/alice'',
                          account ''bob'' 1001 ''Bob'' ''/home/bob''})
         \<union> {account ''alice'' 1000 ''Alice'' ''/srv/alice'',
            account ''dave'' 1003 ''Dave'' ''/home/dave''}
   \<and> (\<exists>g1 g2 added changed removed.
        update_users (accounts baseline) ldm_greeter_init = (g1, [])
      \<and> load_users (accounts reloaded) g1
          = (g2, [(USER_ADDED added, g2), (USER_CHANGED changed, g2),
                  (USER_REMOVED removed, g2)])
      \<and> user_name (user_heap g2 added) = bytes ''dave''
      \<and> user_name (user_heap g2 changed) = bytes ''alice''
      \<and> user_home_directory (user_heap g2 changed) = bytes ''/srv/alice''
      \<and> user_name (user_heap g2 removed) = bytes ''bob'')"
proof -
  let ?c = "account ''alice'' 1000 ''Alice'' ''/home/alice''"
  let ?c' = "account ''alice'' 1000 ''Alice'' ''/srv/alice''"
  let ?r = "account ''bob'' 1001 ''Bob'' ''/home/bob''"
  let ?d = "account ''dave'' 1003 ''Dave'' ''/home/dave''"
  have dA: "distinct (map pw_name baseline)" and dB: "distinct (map pw_name reloaded)"
    by (simp_all add: baseline_def reloaded_def account_def bytes_def)
  have vis: "\<forall>e \<in> set baseline \<union> set reloaded. \<not> hidden_entry (accounts []) e"
    unfolding ball_Un ball_simps list.set baseline_def reloaded_def
    by (intro conjI; code_simp)
  have c: "?c \<in> set baseline" and r: "?r \<in> set baseline" and cr: "?c \<noteq> ?r"
    and c': "pw_name ?c' = pw_name ?c" "pw_dir ?c' \<noteq> pw_dir ?c"
    and d: "pw_name ?d \<notin> pw_name ` set baseline"
    by (simp_all add: baseline_def account_def bytes_def)
  have B: "set reloaded = (set baseline - {?c, ?r}) \<union> {?c', ?d}"
    by (auto simp: baseline_def reloaded_def account_def bytes_def)
  have env: "accounts [] \<lparr>passwd_entries := es\<rparr> = accounts es" for es
    by (simp add: accounts_def)
  from reload_notifications [OF dA dB vis c r cr c' d B]
  obtain g1 g2 added changed removed
    where "update_users (accounts baseline) ldm_greeter_init = (g1, [])"
      "load_users (accounts reloaded) g1
        = (g2, [(USER_ADDED added, g2), (USER_CHANGED changed, g2),
                (USER_REMOVED removed, g2)])"
      "user_heap g2 added = entry_user (accounts []) ?d"
      "user_heap g2 changed = entry_user (accounts []) ?c'"
      "user_name (user_heap g2 removed) = pw_name ?r"
    unfolding env by blast
  moreover have "user_name (entry_user (accounts []) ?d) = bytes ''dave''"
    "user_name (entry_user (accounts []) ?c') = bytes ''alice''"
    "user_home_directory (entry_user (accounts []) ?c') = bytes ''/srv/alice''"
    "pw_name ?r = bytes ''bob''"
    by (simp_all add: entry_user_def account_def)
  moreover from vis
  have "list_all (\<lambda>e. \<not> hidden_entry (accounts []) e) (baseline @ reloaded)"
    by (simp add: list_all_iff ball_Un)
  ultimately show ?thesis
    using dA dB B by (intro conjI exI [of _ g1] exI [of _ g2] exI [of _ added]
        exI [of _ changed] exI [of _ removed]) simp_all
qed

text \<open>
  C5 as stated fails: in this scenario the second load emits USER_ADDED first, then
  USER_CHANGED, then USER_REMOVED, since \<^verbatim>\<open>load_users\<close> notifies of the new users before
  the changed ones.
\<close>

theorem reload_notifications_counterexample:
  "signals_of (update_users (accounts baseline) ldm_greeter_init) = []
   \<and> signals_of (load_users (accounts reloaded) baseline_loaded)
       = [USER_ADDED 5, USER_CHANGED 0, USER_REMOVED 1]
   \<and> \<not> changed_added_removed (signals_of (load_users (accounts reloaded) baseline_loaded))"
  by code_simp

end
